theory Spec2Isabelle
  imports Main "HOL-Library.AList" "HOL-Library.Multiset" "HOL-Library.Sublist"
begin

section \<open>Data model\<close>

text \<open>
  The two classes of the repository, \<open>DependencyCollection\<close> and \<open>Registry\<close>, work on
  JavaScript objects that are shared by reference: a plugin is reachable from the
  registry map, from the \<open>dependencies\<close> map of every plugin that depends on it and from
  the \<open>dependents\<close> map of every plugin it depends on. The model therefore keeps plugin
  objects in an explicit store and lets every map and array hold references.

  A plain JavaScript object used as a dictionary is an association list in property
  enumeration order. For keys that are not canonical array indices that order is the
  insertion order: assigning to a new key appends, assigning to an existing key
  replaces the value in place. This is what \<^const>\<open>AList.update\<close> does; reading a key is
  \<^const>\<open>map_of\<close> (\<open>undefined\<close> is \<open>None\<close>), and \<open>delete\<close> is \<^const>\<open>AList.delete\<close>.
  Names that are canonical array indices (\<open>"0"\<close>, \<open>"1"\<close>, ...), which JavaScript enumerates
  first, are outside the model.

  The registry map is a plain \<open>{}\<close>, so a read \<open>object[name]\<close> of a name the object does
  not own falls through to \<open>Object.prototype\<close>. \<open>resolve\<close> tests such a read for
  presence, and there the inherited names matter: \<open>lookup\<close> below models the read with
  the prototype chain. \<open>get\<close> is modelled on the own properties: for a name that only
  \<open>Object.prototype\<close> supplies it gives \<open>None\<close>, as for an absent name.
\<close>

type_synonym ref = nat

type_synonym 'v obj = "(string \<times> 'v) list"

text \<open>
  Modelled from the spec: the class \<open>Plugin\<close>, which the registry requires and whose
  file is not among the sources. The spec's data model gives a plugin a \<open>name\<close>, a
  \<open>metadata\<close> object with a \<open>version\<close> and optional \<open>dependencies\<close> (plugin name to
  version range), and the two link maps \<open>dependencies\<close> and \<open>dependents\<close> (name to
  plugin), which \<open>resolve\<close> populates. These are exactly the fields the registry reads
  and writes; the link maps are \<open>undefined\<close> until \<open>resolve\<close> creates them
  (\<open>plugin.dependencies = plugin.dependencies || {}\<close>).
\<close>

record metadata =
  version :: string
  dependencies :: "string obj option"

record plugin =
  name :: string
  metadata :: metadata
  dependencies :: "ref obj option"
  dependents :: "ref obj option"

type_synonym heap = "ref \<Rightarrow> plugin"

text \<open>
  The only exception the two classes construct themselves is \<open>new Error(message)\<close>.
  \<open>TypeError\<close> is what the runtime throws when a property of \<open>undefined\<close> is read; its
  message depends on the engine and is left out.
\<close>

datatype error = Error string | TypeError

text \<open>
  The properties every plain object inherits from \<open>Object.prototype\<close>: those of the
  language standard and of its annex for web browsers, which Node implements.
\<close>

definition Object_prototype :: "string list" where
  "Object_prototype =
     [''constructor'', ''hasOwnProperty'', ''isPrototypeOf'', ''propertyIsEnumerable'',
      ''toLocaleString'', ''toString'', ''valueOf'', ''__proto__'',
      ''__defineGetter__'', ''__defineSetter__'', ''__lookupGetter__'', ''__lookupSetter__'']"

text \<open>
  The read \<open>object[name]\<close> on a plain object: the own property if there is one, else
  the value \<open>Object.prototype\<close> has under that name (a function, or the prototype itself
  for \<open>__proto__\<close>: never a plugin, always truthy, and without a \<open>metadata\<close> property), else
  \<open>undefined\<close>.
\<close>

datatype 'v property = Own 'v | Inherited | Undefined

definition lookup :: "'v obj \<Rightarrow> string \<Rightarrow> 'v property" where
  "lookup object name' =
     (case map_of object name' of
        Some v \<Rightarrow> Own v
      | None \<Rightarrow> if name' \<in> set Object_prototype then Inherited else Undefined)"

text \<open>\<open>x || {}\<close> on a map that may be \<open>undefined\<close>.\<close>

definition or_empty :: "'v obj option \<Rightarrow> 'v obj" where
  "or_empty m = (case m of None \<Rightarrow> [] | Some al \<Rightarrow> al)"

text \<open>
  lodash's \<open>_.values(object)\<close>: the property values in enumeration order, and the empty
  array for \<open>undefined\<close>.
\<close>

definition values_of :: "'v obj option \<Rightarrow> 'v list" where
  "values_of m = map snd (or_empty m)"

section \<open>DependencyCollection\<close>

text \<open>
  A descriptor is any object with a \<open>name\<close>; its other properties (\<open>type\<close>, \<open>factory\<close>,
  ...) are left open in the extension part of the record.

  The injector is not among the sources; the collection only ever calls its \<open>get\<close>
  method. It is a parameter here: a function from a name and the injector's internal
  state to either a thrown value or a resolved instance, together with the new state
  (a factory may run and its result may be cached).
\<close>

record descriptor =
  name :: string

type_synonym ('s, 'e, 'v) injector = "string \<Rightarrow> 's \<Rightarrow> ('e + 'v) \<times> 's"

record ('d, 's, 'e, 'v) dependency_collection =
  items :: "'d list"
  injector :: "('s, 'e, 'v) injector"

text \<open>
  The constructor starts from the empty array, stores the injector and pushes every
  element of \<open>_.values(collection)\<close>.
\<close>

definition DependencyCollection ::
  "'d obj option \<Rightarrow> ('s, 'e, 'v) injector \<Rightarrow> ('d, 's, 'e, 'v) dependency_collection" where
  "DependencyCollection collection injector' =
     \<lparr>items = fold (\<lambda>item this. this @ [item]) (values_of collection) [], injector = injector'\<rparr>"




section \<open>Registry\<close>

text \<open>
  Modelled from the spec: the class \<open>PluginCollection\<close>, whose file is not among the
  sources. The spec describes it as an ordered collection of plugins with the same
  contract as \<open>DependencyCollection\<close>; so its constructor, too, starts from the empty
  array and pushes every element of its argument, and \<open>new PluginCollection()\<close> is
  empty.
\<close>

definition PluginCollection :: "ref list \<Rightarrow> ref list" where
  "PluginCollection collection = fold (\<lambda>item this. this @ [item]) collection []"

text \<open>
  The registry owns the map \<open>this[plugins]\<close> from names to plugins and the array
  \<open>this.prioritized\<close>. (\<open>directories\<close> and \<open>files\<close> belong to file discovery and
  loading, which none of the operations below reads.)
\<close>

record registry =
  plugins :: "ref obj"
  prioritized :: "ref list"

definition Registry :: registry where
  "Registry = \<lparr>plugins = [], prioritized = PluginCollection []\<rparr>"

text \<open>
  A value passed to \<open>set\<close>: a reference to a \<open>Plugin\<close> instance, or anything else,
  given by its \<open>JSON.stringify\<close> text.
\<close>

datatype jsvalue = PluginInstance ref | NotPlugin string

definition get :: "string \<Rightarrow> registry \<Rightarrow> ref option" where
  "get name' this = map_of (plugins this) name'"

definition set_plugin :: "string \<Rightarrow> jsvalue \<Rightarrow> registry \<Rightarrow> error + ref \<times> registry" where
  "set_plugin name' v this =
     (case v of
        NotPlugin json \<Rightarrow> Inl (Error (json @ '' is not a Plugin instance.''))
      | PluginInstance plugin' \<Rightarrow>
          Inr (plugin', this\<lparr>plugins := AList.update name' plugin' (plugins this)\<rparr>))"

text \<open>
  \<open>delete object[name]\<close> removes the own property if there is one and evaluates to
  \<open>true\<close> in either case (properties created by assignment are configurable).
\<close>

definition del :: "string \<Rightarrow> registry \<Rightarrow> bool \<times> registry" where
  "del name' this = (True, this\<lparr>plugins := AList.delete name' (plugins this)\<rparr>)"

subsection \<open>resolve\<close>

text \<open>
  \<open>forEach\<close> with a callback that may throw and that mutates plugin objects: the heap
  is threaded through, and the first exception ends the loop. The heap comes back in
  both cases, since what was written before the exception stays written.
\<close>

fun forEach_throw :: "('a \<Rightarrow> heap \<Rightarrow> error option \<times> heap) \<Rightarrow> 'a list \<Rightarrow> heap \<Rightarrow> error option \<times> heap" where
  "forEach_throw f [] hp = (None, hp)"
| "forEach_throw f (x # xs) hp =
     (case f x hp of
        (Some e, hp') \<Rightarrow> (Some e, hp')
      | (None, hp') \<Rightarrow> forEach_throw f xs hp')"

text \<open>
  The body of the inner loop, for the plugin \<open>plugin'\<close> and one entry \<open>(name', range')\<close>
  of its \<open>metadata.dependencies\<close>. \<open>satisfies\<close> stands for \<open>semver.satisfies\<close> of the
  npm package \<open>semver\<close>. An inherited value passes the presence test
  \<open>if (!dependency)\<close>; it has no \<open>metadata\<close>, so reading \<open>dependency.metadata.version\<close>
  throws a \<open>TypeError\<close> before anything is written.
\<close>

definition resolve_dependency ::
  "(string \<Rightarrow> string \<Rightarrow> bool) \<Rightarrow> ref obj \<Rightarrow> ref \<Rightarrow> string \<times> string \<Rightarrow> heap \<Rightarrow> error option \<times> heap" where
  "resolve_dependency satisfies plugins' plugin' entry hp =
     (case entry of (name', range') \<Rightarrow>
        (case lookup plugins' name' of
           Undefined \<Rightarrow> (Some (Error (''Dependency '' @ name' @ '' missing.'')), hp)
         | Inherited \<Rightarrow> (Some TypeError, hp)
         | Own dependency \<Rightarrow>
             (let version' = version (metadata (hp dependency)) in
              if \<not> satisfies version' range'
              then (Some (Error (name' @ '' '' @ version' @ '' does not satisfy '' @ range' @ ''.'')), hp)
              else
                (let hp1 = hp(dependency := (hp dependency)
                             \<lparr>dependents := Some (or_empty (dependents (hp dependency)))\<rparr>);
                     hp2 = hp1(dependency := (hp1 dependency)
                             \<lparr>dependents := Some (AList.update (plugin.name (hp1 plugin')) plugin'
                                                   (or_empty (dependents (hp1 dependency))))\<rparr>);
                     hp3 = hp2(plugin' := (hp2 plugin')
                             \<lparr>plugin.dependencies := Some (or_empty (plugin.dependencies (hp2 plugin')))\<rparr>);
                     hp4 = hp3(plugin' := (hp3 plugin')
                             \<lparr>plugin.dependencies := Some (AList.update name' dependency
                                                   (or_empty (plugin.dependencies (hp3 plugin'))))\<rparr>)
                 in (None, hp4)))))"

text \<open>
  The body of the outer loop, for one key of the registry map. The entries of
  \<open>metadata.dependencies || {}\<close> are visited in key order; the keys of an object are
  distinct, so each is visited with the range stored under it.
\<close>

definition resolve_plugin ::
  "(string \<Rightarrow> string \<Rightarrow> bool) \<Rightarrow> ref obj \<Rightarrow> string \<times> ref \<Rightarrow> heap \<Rightarrow> error option \<times> heap" where
  "resolve_plugin satisfies plugins' kv hp =
     (case kv of (key, plugin') \<Rightarrow>
        (let metadata' = metadata (hp plugin');
             dependencies' = or_empty (metadata.dependencies metadata')
         in forEach_throw (resolve_dependency satisfies plugins' plugin') dependencies' hp))"

text \<open>
  \<open>resolve\<close> visits the keys of the registry map in order, each with the plugin stored
  under it, and returns \<open>this\<close>; the registry itself is not written.
\<close>

definition resolve :: "(string \<Rightarrow> string \<Rightarrow> bool) \<Rightarrow> registry \<Rightarrow> heap \<Rightarrow> error option \<times> heap" where
  "resolve satisfies this hp = forEach_throw (resolve_plugin satisfies (plugins this)) (plugins this) hp"

subsection \<open>prioritize and satisfy\<close>

text \<open>
  Both loops have the shape
  \<^verbatim>\<open>source.forEach((plugin, index) => { if (cond) { target.push(plugin); source.splice(index, 1) } })\<close>.
  \<open>forEach\<close> reads the length once, then visits the indices \<open>0, 1, ...\<close> below that
  length and calls the callback with the element found at the index at that moment,
  skipping an index that is no longer in the array. \<open>splice(index, 1)\<close> removes the
  element at \<open>index\<close> and shifts the later ones down.
\<close>

definition forEach_step :: "('a list \<Rightarrow> 'a \<Rightarrow> bool) \<Rightarrow> nat \<Rightarrow> 'a list \<times> 'a list \<Rightarrow> 'a list \<times> 'a list" where
  "forEach_step cond index st =
     (case st of (target, source) \<Rightarrow>
        if index < length source then
          (let plugin' = source ! index in
           if cond target plugin'
           then (target @ [plugin'], take index source @ drop (Suc index) source)
           else (target, source))
        else (target, source))"

definition forEach_move :: "('a list \<Rightarrow> 'a \<Rightarrow> bool) \<Rightarrow> 'a list \<Rightarrow> 'a list \<Rightarrow> 'a list \<times> 'a list" where
  "forEach_move cond target source = fold (forEach_step cond) [0..<length source] (target, source)"

text \<open>
  \<open>isSatisfied\<close> in \<open>satisfy\<close>: every value of \<open>plugin.dependencies\<close> is found in
  \<open>target\<close> by \<open>indexOf\<close>, that is by reference.
\<close>

definition isSatisfied :: "heap \<Rightarrow> ref list \<Rightarrow> ref \<Rightarrow> bool" where
  "isSatisfied hp target plugin' =
     list_all (\<lambda>dependency. dependency \<in> set target) (values_of (plugin.dependencies (hp plugin')))"

text \<open>
  The recursion of \<open>satisfy\<close> has no bound in the source, so the model is a partial
  function: \<open>None\<close> stands for a call that never returns.
\<close>

partial_function (option) satisfy :: "heap \<Rightarrow> ref list \<Rightarrow> ref list \<Rightarrow> ref list option" where
  "satisfy hp ordered remaining =
     (case forEach_move (isSatisfied hp) ordered remaining of
        (target, source) \<Rightarrow> if source = [] then Some target else satisfy hp target source)"

text \<open>The test of the first loop of \<open>prioritize\<close>.\<close>

definition no_dependencies :: "heap \<Rightarrow> ref \<Rightarrow> bool" where
  "no_dependencies hp plugin' =
     (case plugin.dependencies (hp plugin') of
        None \<Rightarrow> True
      | Some al \<Rightarrow> length (map fst al) = 0)"

definition prioritize :: "heap \<Rightarrow> registry \<Rightarrow> registry option" where
  "prioritize hp this =
     (case forEach_move (\<lambda>ordered. no_dependencies hp) [] (values_of (Some (plugins this))) of
        (ordered, remaining) \<Rightarrow>
          (case satisfy hp ordered remaining of
             None \<Rightarrow> None
           | Some result \<Rightarrow> Some (this\<lparr>prioritized := PluginCollection result\<rparr>)))"

subsection \<open>plugin\<close>

text \<open>
  \<open>new Plugin(name, metadata)\<close> runs a constructor that is not among the sources; it
  is a parameter \<open>construct\<close>, which returns the fields of the new object or throws.
  The new object is placed at the next unused reference of the store.
\<close>

record store =
  heap :: heap
  next_ref :: ref

definition registry_plugin ::
  "(string \<Rightarrow> metadata \<Rightarrow> error + plugin) \<Rightarrow> string \<Rightarrow> metadata option \<Rightarrow> store \<times> registry
     \<Rightarrow> (error + ref option) \<times> store \<times> registry" where
  "registry_plugin construct name' metadata' st =
     (case st of (s, this) \<Rightarrow>
        (case metadata' of
           Some md \<Rightarrow>
             (case construct name' md of
                Inl e \<Rightarrow> (Inl e, s, this)
              | Inr p \<Rightarrow>
                  (let r = next_ref s;
                       s' = s\<lparr>heap := (heap s)(r := p), next_ref := Suc r\<rparr>
                   in case set_plugin name' (PluginInstance r) this of
                        Inl e \<Rightarrow> (Inl e, s', this)
                      | Inr (plugin', this') \<Rightarrow> (Inr (Some plugin'), s', this')))
         | None \<Rightarrow> (Inr (get name' this), s, this)))"

section \<open>Notions used in the statements\<close>

subsection \<open>The two loops, by recursion on the array\<close>

text \<open>
  The same loop as \<open>forEach_move\<close>, by recursion on the part of \<open>source\<close> not
  yet visited. After a removal the next element slides into the index just visited and
  the loop moves on, so that element is not examined in this pass: it stays in
  \<open>source\<close>. \<open>forEach_move_scan\<close> below proves the two formulations equal.
\<close>

fun scan :: "('a list \<Rightarrow> 'a \<Rightarrow> bool) \<Rightarrow> 'a list \<Rightarrow> 'a list \<Rightarrow> 'a list \<times> 'a list" where
  "scan cond target [] = (target, [])"
| "scan cond target [p] = (if cond target p then (target @ [p], []) else (target, [p]))"
| "scan cond target (p # q # rest) =
     (if cond target p
      then (case scan cond (target @ [p]) rest of (t, s) \<Rightarrow> (t, q # s))
      else (case scan cond target (q # rest) of (t, s) \<Rightarrow> (t, p # s)))"

subsection \<open>The dependency graph\<close>

text \<open>The plugins a plugin is linked to: \<open>_.values(plugin.dependencies)\<close>.\<close>

definition deps :: "heap \<Rightarrow> ref \<Rightarrow> ref list" where
  "deps hp p = values_of (plugin.dependencies (hp p))"

text \<open>
  In the array \<open>xs\<close>, every plugin linked as a dependency of the plugin at an index
  stands at a smaller index.
\<close>

definition deps_precede :: "heap \<Rightarrow> ref list \<Rightarrow> bool" where
  "deps_precede hp xs = (\<forall>i<length xs. \<forall>q\<in>set (deps hp (xs ! i)). \<exists>j<i. xs ! j = q)"

text \<open>
  The dependency graph of the registered plugins: an edge from \<open>q\<close> to \<open>p\<close> when \<open>p\<close> is a
  value of the registry map and \<open>q\<close> is a value of \<open>p.dependencies\<close>.
\<close>

definition depends_on :: "heap \<Rightarrow> ref obj \<Rightarrow> (ref \<times> ref) set" where
  "depends_on hp plugins' = {(q, p). p \<in> snd ` set plugins' \<and> q \<in> set (deps hp p)}"

text \<open>
  The state of the links that \<open>resolve\<close> leaves: whatever a registered plugin has under a
  name in its \<open>dependencies\<close> map is the plugin registered under that name. A registry
  whose plugins have no \<open>dependencies\<close> map yet is in this state, and \<open>resolve\<close> keeps
  it (\<open>unlinked_linked\<close> and \<open>resolve_linked\<close> below).
\<close>

definition linked :: "heap \<Rightarrow> ref obj \<Rightarrow> bool" where
  "linked hp plugins' =
     (\<forall>(key, p)\<in>set plugins'. \<forall>(n, d)\<in>set (or_empty (plugin.dependencies (hp p))). map_of plugins' n = Some d)"

subsection \<open>The entries resolve visits\<close>

text \<open>
  \<open>resolve\<close> visits, plugin by plugin in the order of the registry map, the entries of
  the plugin's \<open>metadata.dependencies\<close>. This is the sequence of visits: the plugin,
  the dependency's name and the requested range. \<open>resolve\<close> does not write metadata, so
  the sequence is fixed by the heap at the start (\<open>resolve_flat\<close> below).
\<close>

definition dependency_entries :: "heap \<Rightarrow> ref obj \<Rightarrow> (ref \<times> string \<times> string) list" where
  "dependency_entries hp plugins' =
     concat (map (\<lambda>(key, p). map (Pair p) (or_empty (metadata.dependencies (metadata (hp p))))) plugins')"

text \<open>The body of the inner loop of \<open>resolve\<close> at one visit.\<close>

definition resolve_entry ::
  "(string \<Rightarrow> string \<Rightarrow> bool) \<Rightarrow> ref obj \<Rightarrow> ref \<times> string \<times> string \<Rightarrow> heap \<Rightarrow> error option \<times> heap" where
  "resolve_entry satisfies plugins' pe hp = resolve_dependency satisfies plugins' (fst pe) (snd pe) hp"

text \<open>
  Every plugin is stored under its own name, as \<open>registry.plugin(name, metadata)\<close>
  stores it (the keys of the map are distinct, as the keys of an object are).
  \<open>registry.set(name, plugin)\<close> can break this: it takes the key and the plugin
  separately.
\<close>

definition registered_by_name :: "heap \<Rightarrow> ref obj \<Rightarrow> bool" where
  "registered_by_name hp plugins' =
     (distinct (map fst plugins') \<and> (\<forall>(key, p)\<in>set plugins'. plugin.name (hp p) = key))"

text \<open>Two heaps whose plugins have the same names and metadata.\<close>

definition same_metadata :: "heap \<Rightarrow> heap \<Rightarrow> bool" where
  "same_metadata hp hp' = (\<forall>x. plugin.name (hp' x) = plugin.name (hp x) \<and> metadata (hp' x) = metadata (hp x))"

text \<open>
  The two links between a plugin \<open>a\<close> and its dependency \<open>b\<close>:
  \<open>b.dependents[ka] === a\<close> and \<open>a.dependencies[kb] === b\<close>.
\<close>

definition links :: "heap \<Rightarrow> ref \<Rightarrow> string \<Rightarrow> ref \<Rightarrow> string \<Rightarrow> bool" where
  "links h a ka b kb =
     (map_of (or_empty (dependents (h b))) ka = Some a \<and>
      map_of (or_empty (plugin.dependencies (h a))) kb = Some b)"

section \<open>Example registries\<close>

text \<open>
  A plugin object as registration leaves it: name and metadata set, no link maps yet.
\<close>

definition fresh_plugin :: "string \<Rightarrow> string \<Rightarrow> string obj option \<Rightarrow> plugin" where
  "fresh_plugin n v ds =
     \<lparr>plugin.name = n, metadata = \<lparr>version = v, metadata.dependencies = ds\<rparr>,
      plugin.dependencies = None, dependents = None\<rparr>"

text \<open>
  The one fact about \<open>semver.satisfies\<close> that lets a range of the examples pass:
  \<open>1.0.0\<close> satisfies \<open>^1.0.0\<close>. The other pairs the examples ask about are
  \<open>1.0.0\<close> against \<open>^2.0.0\<close> and versions against ranges of entries that are never
  reached; this stand-in rejects them.
\<close>

definition satisfies_ex :: "string \<Rightarrow> string \<Rightarrow> bool" where
  "satisfies_ex v r = (v = ''1.0.0'' \<and> r = ''^1.0.0'')"

text \<open>Three plugins \<open>a\<close>, \<open>b\<close>, \<open>c\<close>, registered in this order at the references 0, 1, 2.\<close>

definition abc_registry :: registry where
  "abc_registry = \<lparr>plugins = [(''a'', 0), (''b'', 1), (''c'', 2)], prioritized = []\<rparr>"

text \<open>None of the three depends on anything.\<close>

definition independent_heap :: heap where
  "independent_heap =
     (\<lambda>_. fresh_plugin [] [] None)
       (0 := fresh_plugin ''a'' ''1.0.0'' None,
        1 := fresh_plugin ''b'' ''1.0.0'' None,
        2 := fresh_plugin ''c'' ''1.0.0'' None)"

text \<open>
  The end-to-end example of the spec: \<open>b\<close> requires \<open>a\<close> and \<open>c\<close> requires \<open>b\<close>, first
  as registered, then as \<open>resolve\<close> leaves the three objects (\<open>chain_resolve\<close> below).
\<close>

definition chain_heap :: heap where
  "chain_heap =
     (\<lambda>_. fresh_plugin [] [] None)
       (0 := fresh_plugin ''a'' ''1.0.0'' None,
        1 := fresh_plugin ''b'' ''1.0.0'' (Some [(''a'', ''^1.0.0'')]),
        2 := fresh_plugin ''c'' ''1.0.0'' (Some [(''b'', ''^1.0.0'')]))"

definition chain_linked :: heap where
  "chain_linked =
     (\<lambda>_. fresh_plugin [] [] None)
       (0 := (fresh_plugin ''a'' ''1.0.0'' None)\<lparr>dependents := Some [(''b'', 1)]\<rparr>,
        1 := (fresh_plugin ''b'' ''1.0.0'' (Some [(''a'', ''^1.0.0'')]))
               \<lparr>plugin.dependencies := Some [(''a'', 0)], dependents := Some [(''c'', 2)]\<rparr>,
        2 := (fresh_plugin ''c'' ''1.0.0'' (Some [(''b'', ''^1.0.0'')]))
               \<lparr>plugin.dependencies := Some [(''b'', 1)]\<rparr>)"

text \<open>Two plugins that require each other, as \<open>resolve\<close> leaves them.\<close>

definition ab_registry :: registry where
  "ab_registry = \<lparr>plugins = [(''a'', 0), (''b'', 1)], prioritized = []\<rparr>"

definition cycle_heap :: heap where
  "cycle_heap =
     (\<lambda>_. fresh_plugin [] [] None)
       (0 := (fresh_plugin ''a'' ''1.0.0'' (Some [(''b'', ''^1.0.0'')]))
               \<lparr>plugin.dependencies := Some [(''b'', 1)], dependents := Some [(''b'', 1)]\<rparr>,
        1 := (fresh_plugin ''b'' ''1.0.0'' (Some [(''a'', ''^1.0.0'')]))
               \<lparr>plugin.dependencies := Some [(''a'', 0)], dependents := Some [(''a'', 0)]\<rparr>)"



text \<open>\<open>a\<close> requires \<open>b\<close> in a range that the version of \<open>b\<close> is not in.\<close>

definition mismatch_heap :: heap where
  "mismatch_heap =
     (\<lambda>_. fresh_plugin [] [] None)
       (0 := fresh_plugin ''a'' ''1.0.0'' (Some [(''b'', ''^2.0.0'')]),
        1 := fresh_plugin ''b'' ''1.0.0'' None)"

text \<open>The same, but \<open>a\<close> first requires \<open>ghost\<close>, which nobody registered.\<close>

definition ghost_first_heap :: heap where
  "ghost_first_heap =
     (\<lambda>_. fresh_plugin [] [] None)
       (0 := fresh_plugin ''a'' ''1.0.0'' (Some [(''ghost'', ''^1.0.0''), (''b'', ''^2.0.0'')]),
        1 := fresh_plugin ''b'' ''1.0.0'' None)"

text \<open>
  \<open>a\<close> requires \<open>b\<close>, and the plugin stored under \<open>b\<close> by
  \<open>registry.set('b', plugin)\<close> calls itself \<open>bee\<close>.
\<close>

definition bee_heap :: heap where
  "bee_heap =
     (\<lambda>_. fresh_plugin [] [] None)
       (0 := fresh_plugin ''a'' ''1.0.0'' (Some [(''b'', ''^1.0.0'')]),
        1 := fresh_plugin ''bee'' ''1.0.0'' None)"

text \<open>
  One plugin stored under two names, as \<open>registry.set('x', p); registry.set('y', p)\<close>
  leaves the map.
\<close>

definition alias_registry :: registry where
  "alias_registry = \<lparr>plugins = [(''x'', 0), (''y'', 0)], prioritized = []\<rparr>"

definition alias_heap :: heap where
  "alias_heap = (\<lambda>_. fresh_plugin [] [] None)(0 := fresh_plugin ''p'' ''1.0.0'' None)"




text \<open>A constructor for the examples: it accepts every name and metadata.\<close>

definition construct_ex :: "string \<Rightarrow> metadata \<Rightarrow> error + plugin" where
  "construct_ex n md = Inr \<lparr>plugin.name = n, metadata = md, plugin.dependencies = None, dependents = None\<rparr>"

section \<open>The constructors\<close>

lemma push_all: "fold (\<lambda>item this. this @ [item]) xs acc = acc @ xs"
  by (induction xs arbitrary: acc) simp_all

lemma PluginCollection_id [simp]: "PluginCollection xs = xs"
  by (simp add: PluginCollection_def push_all)

lemma DependencyCollection_items: "items (DependencyCollection collection g) = values_of collection"
  by (simp add: DependencyCollection_def push_all)

section \<open>The loop that moves plugins\<close>

text \<open>Indices at or past the end of the array are skipped.\<close>

lemma fold_forEach_step_past:
  "length source \<le> k \<Longrightarrow> fold (forEach_step cond) [k..<n] (target, source) = (target, source)"
proof (induction "n - k" arbitrary: k)
  case 0
  then show ?case by simp
next
  case (Suc d)
  then have "k < n" by simp
  then have "[k..<n] = k # [Suc k..<n]" by (simp add: upt_conv_Cons)
  moreover have "forEach_step cond k (target, source) = (target, source)"
    using Suc.prems by (simp add: forEach_step_def)
  moreover have "fold (forEach_step cond) [Suc k..<n] (target, source) = (target, source)"
    using Suc by simp
  ultimately show ?case by simp
qed

text \<open>
  With \<open>kept\<close> the elements already passed over and \<open>rest\<close> the ones from the current
  index on, the remaining steps of the loop are a scan of \<open>rest\<close>.
\<close>

lemma fold_forEach_step_scan:
  "length kept = k \<Longrightarrow> k + length rest \<le> n \<Longrightarrow>
   fold (forEach_step cond) [k..<n] (target, kept @ rest) =
     (case scan cond target rest of (t, s) \<Rightarrow> (t, kept @ s))"
proof (induction cond target rest arbitrary: kept k rule: scan.induct)
  case (1 cond target)
  then show ?case by (simp add: fold_forEach_step_past)
next
  case (2 cond target p)
  then have "k < n" by simp
  then have upt: "[k..<n] = k # [Suc k..<n]" by (simp add: upt_conv_Cons)
  show ?case
  proof (cases "cond target p")
    case True
    then have "forEach_step cond k (target, kept @ [p]) = (target @ [p], kept)"
      using 2 by (simp add: forEach_step_def nth_append)
    then show ?thesis using True 2 upt by (simp add: fold_forEach_step_past)
  next
    case False
    then have "forEach_step cond k (target, kept @ [p]) = (target, kept @ [p])"
      using 2 by (simp add: forEach_step_def nth_append)
    then show ?thesis using False 2 upt by (simp add: fold_forEach_step_past)
  qed
next
  case (3 cond target p q rest)
  then have "k < n" by simp
  then have upt: "[k..<n] = k # [Suc k..<n]" by (simp add: upt_conv_Cons)
  show ?case
  proof (cases "cond target p")
    case True
    then have step: "forEach_step cond k (target, kept @ p # q # rest) = (target @ [p], (kept @ [q]) @ rest)"
      using 3(3) by (simp add: forEach_step_def nth_append)
    have "fold (forEach_step cond) [Suc k..<n] (target @ [p], (kept @ [q]) @ rest) =
            (case scan cond (target @ [p]) rest of (t, s) \<Rightarrow> (t, (kept @ [q]) @ s))"
      using 3(1)[OF True, of "kept @ [q]" "Suc k"] 3(3,4) by simp
    then show ?thesis using True upt step by (simp split: prod.splits)
  next
    case False
    then have step: "forEach_step cond k (target, kept @ p # q # rest) = (target, (kept @ [p]) @ q # rest)"
      using 3(3) by (simp add: forEach_step_def nth_append)
    have "fold (forEach_step cond) [Suc k..<n] (target, (kept @ [p]) @ q # rest) =
            (case scan cond target (q # rest) of (t, s) \<Rightarrow> (t, (kept @ [p]) @ s))"
      using 3(2)[OF False, of "kept @ [p]" "Suc k"] 3(3,4) by simp
    then show ?thesis using False upt step by (simp split: prod.splits)
  qed
qed

lemma forEach_move_scan: "forEach_move cond target source = scan cond target source"
  using fold_forEach_step_scan[of "[]" 0 source "length source" cond target]
  by (simp add: forEach_move_def split: prod.splits)

text \<open>A pass moves elements from \<open>source\<close> to \<open>target\<close> and loses none.\<close>

lemma scan_mset:
  "scan cond target source = (t, s) \<Longrightarrow> mset t + mset s = mset target + mset source"
proof (induction cond target source arbitrary: t s rule: scan.induct)
  case (1 cond target)
  then show ?case by simp
next
  case (2 cond target p)
  then show ?case by (auto split: if_splits)
next
  case (3 cond target p q rest)
  show ?case
  proof (cases "cond target p")
    case True
    obtain t1 s1 where sc: "scan cond (target @ [p]) rest = (t1, s1)" by (cases "scan cond (target @ [p]) rest")
    then have "t = t1" "s = q # s1" using 3(3) True by auto
    then show ?thesis using 3(1)[OF True sc] by simp
  next
    case False
    obtain t1 s1 where sc: "scan cond target (q # rest) = (t1, s1)" by (cases "scan cond target (q # rest)")
    then have "t = t1" "s = p # s1" using 3(3) False by auto
    then show ?thesis using 3(2)[OF False sc] by simp
  qed
qed

lemma scan_length_le: "length (snd (scan cond target source)) \<le> length source"
proof (induction cond target source rule: scan.induct)
  case (3 cond target p q rest)
  then show ?case by (cases "cond target p") (simp_all add: case_prod_beta)
qed simp_all

text \<open>
  A pass with an eligible element in \<open>source\<close> removes at least one element: the first
  eligible one is reached without a removal before it, so it is not passed over.
\<close>

lemma scan_progress:
  "\<exists>p\<in>set source. cond target p \<Longrightarrow> length (snd (scan cond target source)) < length source"
proof (induction cond target source rule: scan.induct)
  case (1 cond target)
  then show ?case by simp
next
  case (2 cond target p)
  then show ?case by simp
next
  case (3 cond target p q rest)
  show ?case
  proof (cases "cond target p")
    case True
    then show ?thesis
      using scan_length_le[of cond "target @ [p]" rest] by (simp add: case_prod_beta)
  next
    case False
    then have "\<exists>x\<in>set (q # rest). cond target x" using 3(3) by auto
    then show ?thesis using 3(2)[OF False] False by (simp add: case_prod_beta)
  qed
qed

section \<open>Order and termination of satisfy\<close>

lemma deps_precede_Nil: "deps_precede hp []"
  by (simp add: deps_precede_def)

lemma deps_precede_snoc:
  assumes "deps_precede hp xs" and "set (deps hp p) \<subseteq> set xs"
  shows "deps_precede hp (xs @ [p])"
  unfolding deps_precede_def
proof (intro allI impI ballI)
  fix i q
  assume i: "i < length (xs @ [p])" and q: "q \<in> set (deps hp ((xs @ [p]) ! i))"
  show "\<exists>j<i. (xs @ [p]) ! j = q"
  proof (cases "i < length xs")
    case True
    then have "q \<in> set (deps hp (xs ! i))" using q by (simp add: nth_append)
    then obtain j where j: "j < i" "xs ! j = q"
      using assms(1) True unfolding deps_precede_def by blast
    then have "j < i \<and> (xs @ [p]) ! j = q" using True by (simp add: nth_append)
    then show ?thesis by blast
  next
    case False
    then have i_eq: "i = length xs" using i by simp
    then have "q \<in> set xs" using q assms(2) by auto
    then obtain j where j: "j < length xs" "xs ! j = q" unfolding in_set_conv_nth by blast
    then have "j < i \<and> (xs @ [p]) ! j = q" using i_eq by (simp add: nth_append)
    then show ?thesis by blast
  qed
qed

lemma scan_deps_precede:
  "\<forall>t p. cond t p \<longrightarrow> set (deps hp p) \<subseteq> set t \<Longrightarrow>
   deps_precede hp target \<Longrightarrow> scan cond target source = (t, s) \<Longrightarrow> deps_precede hp t"
proof (induction cond target source arbitrary: t s rule: scan.induct)
  case (1 cond target)
  then show ?case by simp
next
  case (2 cond target p)
  show ?case
  proof (cases "cond target p")
    case True
    then have "t = target @ [p]" using 2(3) by simp
    moreover have "set (deps hp p) \<subseteq> set target" using 2(1) True by blast
    ultimately show ?thesis using deps_precede_snoc[OF 2(2)] by simp
  next
    case False
    then show ?thesis using 2 by simp
  qed
next
  case (3 cond target p q rest)
  show ?case
  proof (cases "cond target p")
    case True
    obtain t1 s1 where sc: "scan cond (target @ [p]) rest = (t1, s1)" by (cases "scan cond (target @ [p]) rest")
    then have "t = t1" using 3(5) True by auto
    moreover have "set (deps hp p) \<subseteq> set target" using 3(3) True by blast
    then have "deps_precede hp (target @ [p])"
      using deps_precede_snoc[OF 3(4)] by simp
    ultimately show ?thesis using 3(1)[OF True 3(3) _ sc] by simp
  next
    case False
    obtain t1 s1 where sc: "scan cond target (q # rest) = (t1, s1)" by (cases "scan cond target (q # rest)")
    then have "t = t1" using 3(5) False by auto
    then show ?thesis using 3(2)[OF False 3(3) 3(4) sc] by simp
  qed
qed

lemma isSatisfied_iff: "isSatisfied hp target p \<longleftrightarrow> set (deps hp p) \<subseteq> set target"
  by (auto simp: isSatisfied_def deps_def list_all_iff)

lemma no_dependencies_iff: "no_dependencies hp p \<longleftrightarrow> deps hp p = []"
  by (simp add: no_dependencies_def deps_def values_of_def or_empty_def split: option.splits)

lemma linked_closed:
  assumes "linked hp plugins'" and "p \<in> snd ` set plugins'"
  shows "set (deps hp p) \<subseteq> snd ` set plugins'"
proof
  fix d assume "d \<in> set (deps hp p)"
  then obtain n where nd: "(n, d) \<in> set (or_empty (plugin.dependencies (hp p)))"
    by (auto simp: deps_def values_of_def)
  obtain key where "(key, p) \<in> set plugins'" using assms(2) by auto
  then have "map_of plugins' n = Some d"
    using assms(1) nd unfolding linked_def by blast
  then have "(n, d) \<in> set plugins'" by (rule map_of_SomeD)
  then show "d \<in> snd ` set plugins'" by force
qed

lemma finite_depends_on: "finite (depends_on hp plugins')"
proof -
  have "depends_on hp plugins' \<subseteq> (\<Union>p\<in>snd ` set plugins'. set (deps hp p)) \<times> (snd ` set plugins')"
    by (auto simp: depends_on_def)
  moreover have "finite ((\<Union>p\<in>snd ` set plugins'. set (deps hp p)) \<times> (snd ` set plugins'))"
    by simp
  ultimately show ?thesis by (rule finite_subset)
qed

text \<open>
  In an acyclic graph some plugin still in \<open>source\<close> has all its dependencies in
  \<open>target\<close>: one that no other plugin of \<open>source\<close> comes before.
\<close>

lemma exists_satisfied:
  assumes ac: "acyclic (depends_on hp plugins')"
    and closed: "\<forall>p\<in>snd ` set plugins'. set (deps hp p) \<subseteq> snd ` set plugins'"
    and all: "set target \<union> set source = snd ` set plugins'"
    and ne: "source \<noteq> []"
  shows "\<exists>p\<in>set source. isSatisfied hp target p"
proof -
  have "wf (depends_on hp plugins')"
    using finite_depends_on ac by (rule finite_acyclic_wf)
  moreover obtain x where "x \<in> set source" using ne by (cases source) auto
  ultimately obtain z where z: "z \<in> set source"
    and zmin: "\<And>y. (y, z) \<in> depends_on hp plugins' \<Longrightarrow> y \<notin> set source"
    by (rule wfE_min) blast
  have zR: "z \<in> snd ` set plugins'" using z all by blast
  have "set (deps hp z) \<subseteq> set target"
  proof
    fix d assume d: "d \<in> set (deps hp z)"
    then have "(d, z) \<in> depends_on hp plugins'" using zR by (simp add: depends_on_def)
    then have "d \<notin> set source" by (rule zmin)
    moreover have "d \<in> snd ` set plugins'" using closed zR d by blast
    ultimately show "d \<in> set target" using all by blast
  qed
  then show ?thesis using z by (auto simp: isSatisfied_iff)
qed

lemma satisfy_returns:
  assumes ac: "acyclic (depends_on hp plugins')"
    and closed: "\<forall>p\<in>snd ` set plugins'. set (deps hp p) \<subseteq> snd ` set plugins'"
  shows "set target \<union> set source = snd ` set plugins' \<Longrightarrow> deps_precede hp target \<Longrightarrow>
         \<exists>xs. satisfy hp target source = Some xs \<and> deps_precede hp xs \<and>
              mset xs = mset target + mset source"
proof (induction "length source" arbitrary: target source rule: less_induct)
  case less
  obtain t s where sc: "scan (isSatisfied hp) target source = (t, s)"
    by (cases "scan (isSatisfied hp) target source")
  have ms: "mset t + mset s = mset target + mset source" using sc by (rule scan_mset)
  have dp: "deps_precede hp t"
    using scan_deps_precede[OF _ less.prems(2) sc] by (simp add: isSatisfied_iff)
  have unf: "satisfy hp target source = (if s = [] then Some t else satisfy hp t s)"
    by (subst satisfy.simps) (simp add: forEach_move_scan sc)
  show ?case
  proof (cases "s = []")
    case True
    then show ?thesis using unf dp ms by simp
  next
    case False
    then have "source \<noteq> []" using sc by (cases source) auto
    then have "\<exists>p\<in>set source. isSatisfied hp target p"
      using exists_satisfied[OF ac closed less.prems(1)] by simp
    then have "length (snd (scan (isSatisfied hp) target source)) < length source"
      by (rule scan_progress)
    then have lt: "length s < length source" using sc by simp
    have "set_mset (mset t + mset s) = set_mset (mset target + mset source)" using ms by simp
    then have "set t \<union> set s = snd ` set plugins'" using less.prems(1) by simp
    from less.hyps[OF lt this dp]
    obtain xs where "satisfy hp t s = Some xs" "deps_precede hp xs" "mset xs = mset t + mset s"
      by blast
    then show ?thesis using unf False ms by simp
  qed
qed

text \<open>What holds of the result whenever \<open>satisfy\<close> returns.\<close>

lemma satisfy_mset:
  assumes "satisfy hp target source = Some xs"
  shows "mset xs = mset target + mset source"
proof (rule satisfy.raw_induct[where P = "\<lambda>hp t s xs. mset xs = mset t + mset s", OF _ assms])
  fix satisfy' hp ordered remaining result
  assume IH: "\<And>h t s y. satisfy' h t s = Some y \<Longrightarrow> mset y = mset t + mset s"
    and eq: "(case forEach_move (isSatisfied hp) ordered remaining of
               (target, source) \<Rightarrow> if source = [] then Some target else satisfy' hp target source) = Some result"
  obtain t s where sc: "scan (isSatisfied hp) ordered remaining = (t, s)"
    by (cases "scan (isSatisfied hp) ordered remaining")
  have ms: "mset t + mset s = mset ordered + mset remaining" using sc by (rule scan_mset)
  show "mset result = mset ordered + mset remaining"
  proof (cases "s = []")
    case True
    then show ?thesis using eq sc ms by (simp add: forEach_move_scan)
  next
    case False
    then have "satisfy' hp t s = Some result" using eq sc by (simp add: forEach_move_scan)
    then show ?thesis using IH ms by simp
  qed
qed

lemma satisfy_deps_precede:
  assumes "satisfy hp target source = Some xs" and "deps_precede hp target"
  shows "deps_precede hp xs"
proof -
  have "deps_precede hp target \<longrightarrow> deps_precede hp xs"
  proof (rule satisfy.raw_induct[where P = "\<lambda>hp t s xs. deps_precede hp t \<longrightarrow> deps_precede hp xs", OF _ assms(1)])
    fix satisfy' hp ordered remaining result
    assume IH: "\<And>h t s y. satisfy' h t s = Some y \<Longrightarrow> deps_precede h t \<longrightarrow> deps_precede h y"
      and eq: "(case forEach_move (isSatisfied hp) ordered remaining of
                 (target, source) \<Rightarrow> if source = [] then Some target else satisfy' hp target source) = Some result"
    obtain t s where sc: "scan (isSatisfied hp) ordered remaining = (t, s)"
      by (cases "scan (isSatisfied hp) ordered remaining")
    show "deps_precede hp ordered \<longrightarrow> deps_precede hp result"
    proof
      assume "deps_precede hp ordered"
      then have dp: "deps_precede hp t"
        using scan_deps_precede[OF _ _ sc] by (simp add: isSatisfied_iff)
      show "deps_precede hp result"
      proof (cases "s = []")
        case True
        then show ?thesis using eq sc dp by (simp add: forEach_move_scan)
      next
        case False
        then have "satisfy' hp t s = Some result" using eq sc by (simp add: forEach_move_scan)
        then show ?thesis using IH dp by blast
      qed
    qed
  qed
  then show ?thesis using assms(2) by simp
qed

lemma values_of_Some: "values_of (Some al) = map snd al"
  by (simp add: values_of_def or_empty_def)

lemma prioritize_unfold:
  "scan (\<lambda>ordered. no_dependencies hp) [] (map snd (plugins this)) = (ordered, remaining) \<Longrightarrow>
   prioritize hp this = map_option (\<lambda>result. this\<lparr>prioritized := result\<rparr>) (satisfy hp ordered remaining)"
  by (simp add: prioritize_def forEach_move_scan values_of_Some split: option.splits)

section \<open>Cycles\<close>

text \<open>
  A set \<open>C\<close> of plugins each of which has a dependency in \<open>C\<close> never loses a member to
  \<open>target\<close>, so \<open>source\<close> never empties and \<open>satisfy\<close> calls itself for ever.
\<close>

lemma scan_avoid:
  "\<forall>t p. p \<in> C \<and> C \<inter> set t = {} \<longrightarrow> \<not> cond t p \<Longrightarrow> C \<inter> set target = {} \<Longrightarrow>
   scan cond target source = (t, s) \<Longrightarrow> C \<inter> set t = {}"
proof (induction cond target source arbitrary: t s rule: scan.induct)
  case (1 cond target)
  then show ?case by simp
next
  case (2 cond target p)
  show ?case
  proof (cases "cond target p")
    case True
    then have "p \<notin> C" using 2(1,2) by blast
    then show ?thesis using 2(2,3) True by auto
  next
    case False
    then show ?thesis using 2 by simp
  qed
next
  case (3 cond target p q rest)
  show ?case
  proof (cases "cond target p")
    case True
    obtain t1 s1 where sc: "scan cond (target @ [p]) rest = (t1, s1)" by (cases "scan cond (target @ [p]) rest")
    then have "t = t1" using 3(5) True by auto
    moreover have "p \<notin> C" using 3(3,4) True by blast
    then have "C \<inter> set (target @ [p]) = {}" using 3(4) by auto
    ultimately show ?thesis using 3(1)[OF True 3(3) _ sc] by simp
  next
    case False
    obtain t1 s1 where sc: "scan cond target (q # rest) = (t1, s1)" by (cases "scan cond target (q # rest)")
    then have "t = t1" using 3(5) False by auto
    then show ?thesis using 3(2)[OF False 3(3) 3(4) sc] by simp
  qed
qed

lemma scan_stuck:
  assumes "\<forall>t p. p \<in> C \<and> C \<inter> set t = {} \<longrightarrow> \<not> cond t p"
    and "C \<inter> set target = {}" and "C \<subseteq> set source" and "scan cond target source = (t, s)"
  shows "C \<inter> set t = {} \<and> C \<subseteq> set s"
proof -
  have a: "C \<inter> set t = {}" using scan_avoid[OF assms(1,2,4)] .
  have "set_mset (mset t + mset s) = set_mset (mset target + mset source)"
    using scan_mset[OF assms(4)] by simp
  then have "set t \<union> set s = set target \<union> set source" by simp
  then show ?thesis using a assms(3) by blast
qed

lemma satisfy_stuck:
  assumes ne: "C \<noteq> {}" and cyc: "\<forall>p\<in>C. \<exists>q\<in>C. q \<in> set (deps hp p)"
    and src: "C \<subseteq> set source" and tgt: "C \<inter> set target = {}"
  shows "satisfy hp target source = None"
proof (cases "satisfy hp target source")
  case None
  then show ?thesis .
next
  case (Some xs)
  have blocked: "\<forall>t p. p \<in> C \<and> C \<inter> set t = {} \<longrightarrow> \<not> isSatisfied hp t p"
    using cyc by (fastforce simp: isSatisfied_iff)
  have "hp = hp \<longrightarrow> C \<subseteq> set source \<longrightarrow> C \<inter> set target = {} \<longrightarrow> False"
  proof (rule satisfy.raw_induct[where P = "\<lambda>h t s xs. h = hp \<longrightarrow> C \<subseteq> set s \<longrightarrow> C \<inter> set t = {} \<longrightarrow> False", OF _ Some])
    fix satisfy' h ordered remaining result
    assume IH: "\<And>h t s y. satisfy' h t s = Some y \<Longrightarrow> h = hp \<longrightarrow> C \<subseteq> set s \<longrightarrow> C \<inter> set t = {} \<longrightarrow> False"
      and eq: "(case forEach_move (isSatisfied h) ordered remaining of
                 (target, source) \<Rightarrow> if source = [] then Some target else satisfy' h target source) = Some result"
    show "h = hp \<longrightarrow> C \<subseteq> set remaining \<longrightarrow> C \<inter> set ordered = {} \<longrightarrow> False"
    proof (intro impI)
      assume h: "h = hp" and s: "C \<subseteq> set remaining" and t: "C \<inter> set ordered = {}"
      obtain t1 s1 where sc: "scan (isSatisfied hp) ordered remaining = (t1, s1)"
        by (cases "scan (isSatisfied hp) ordered remaining")
      have inv: "C \<inter> set t1 = {} \<and> C \<subseteq> set s1" using scan_stuck[OF blocked t s sc] .
      then have "s1 \<noteq> []" using ne by auto
      then have "satisfy' hp t1 s1 = Some result" using eq sc h by (simp add: forEach_move_scan)
      then show False using IH inv by blast
    qed
  qed
  then show ?thesis using src tgt by simp
qed

lemma cycle_set:
  assumes "\<not> acyclic (depends_on hp plugins')"
  shows "\<exists>C. C \<noteq> {} \<and> C \<subseteq> snd ` set plugins' \<and> (\<forall>p\<in>C. \<exists>q\<in>C. q \<in> set (deps hp p))"
proof -
  let ?r = "depends_on hp plugins'"
  obtain x where x: "(x, x) \<in> ?r\<^sup>+" using assms by (auto simp: acyclic_def)
  let ?C = "{y. (x, y) \<in> ?r\<^sup>+ \<and> (y, x) \<in> ?r\<^sup>+}"
  have "x \<in> ?C" using x by simp
  then have "?C \<noteq> {}" by blast
  moreover have "\<forall>p\<in>?C. p \<in> snd ` set plugins' \<and> (\<exists>q\<in>?C. q \<in> set (deps hp p))"
  proof
    fix p assume "p \<in> ?C"
    then have xp: "(x, p) \<in> ?r\<^sup>+" and px: "(p, x) \<in> ?r\<^sup>+" by simp_all
    obtain z where xz: "(x, z) \<in> ?r\<^sup>*" and zp: "(z, p) \<in> ?r" using tranclD2[OF xp] by blast
    have "(x, z) \<in> ?r\<^sup>+" using xz x by (metis rtranclD)
    moreover have "(z, x) \<in> ?r\<^sup>+" using zp px by (rule trancl_into_trancl2)
    ultimately have "z \<in> ?C" by simp
    then show "p \<in> snd ` set plugins' \<and> (\<exists>q\<in>?C. q \<in> set (deps hp p))"
      using zp unfolding depends_on_def by blast
  qed
  ultimately show ?thesis by (intro exI[of _ ?C]) blast
qed

lemma cyclic_registry_diverges:
  assumes "\<not> acyclic (depends_on hp (plugins this))"
  shows "prioritize hp this = None"
proof -
  obtain C where ne: "C \<noteq> {}" and sub: "C \<subseteq> snd ` set (plugins this)"
    and cyc: "\<forall>p\<in>C. \<exists>q\<in>C. q \<in> set (deps hp p)"
    using cycle_set[OF assms] by blast
  obtain ordered remaining
    where sc: "scan (\<lambda>ordered. no_dependencies hp) [] (map snd (plugins this)) = (ordered, remaining)"
    by (cases "scan (\<lambda>ordered. no_dependencies hp) [] (map snd (plugins this))")
  have blocked: "\<forall>t p. p \<in> C \<and> C \<inter> set t = {} \<longrightarrow> \<not> no_dependencies hp p"
    using cyc by (fastforce simp: no_dependencies_iff)
  have "C \<inter> set ordered = {} \<and> C \<subseteq> set remaining"
    using scan_stuck[OF blocked _ _ sc] sub by simp
  then have "satisfy hp ordered remaining = None"
    using satisfy_stuck[OF ne cyc] by blast
  then show ?thesis using prioritize_unfold[OF sc] by simp
qed

section \<open>The visits of resolve\<close>

lemma or_empty_Some [simp]: "or_empty (Some al) = al"
  by (simp add: or_empty_def)

lemma or_empty_None [simp]: "or_empty None = []"
  by (simp add: or_empty_def)


lemma rd_inherited:
  "map_of pl n = None \<Longrightarrow> n \<in> set Object_prototype \<Longrightarrow>
   resolve_dependency sat pl p (n, r) hp = (Some TypeError, hp)"
  by (simp add: resolve_dependency_def lookup_def)

lemma rd_absent:
  "map_of pl n = None \<Longrightarrow> \<exists>e. resolve_dependency sat pl p (n, r) hp = (Some e, hp)"
  by (simp add: resolve_dependency_def lookup_def)

lemma rd_mismatch:
  "map_of pl n = Some d \<Longrightarrow> \<not> sat (version (metadata (hp d))) r \<Longrightarrow>
   resolve_dependency sat pl p (n, r) hp =
     (Some (Error (n @ '' '' @ version (metadata (hp d)) @ '' does not satisfy '' @ r @ ''.'')), hp)"
  by (simp add: resolve_dependency_def lookup_def)

lemma rd_ok:
  assumes "map_of pl n = Some d" and "sat (version (metadata (hp d))) r"
  shows "\<exists>hp'. resolve_dependency sat pl p (n, r) hp = (None, hp') \<and>
     (\<forall>x. plugin.name (hp' x) = plugin.name (hp x) \<and> metadata (hp' x) = metadata (hp x) \<and>
          plugin.dependencies (hp' x) =
            (if x = p then Some (AList.update n d (or_empty (plugin.dependencies (hp p))))
             else plugin.dependencies (hp x)) \<and>
          dependents (hp' x) =
            (if x = d then Some (AList.update (plugin.name (hp p)) p (or_empty (dependents (hp d))))
             else dependents (hp x)))"
  using assms by (cases "p = d") (simp_all add: resolve_dependency_def lookup_def Let_def)

lemma rd_cases:
  "resolve_dependency sat pl p (n, r) hp = (res, hp') \<Longrightarrow>
     (\<forall>x. plugin.name (hp' x) = plugin.name (hp x) \<and> metadata (hp' x) = metadata (hp x))"
proof (cases "map_of pl n")
  case None
  assume "resolve_dependency sat pl p (n, r) hp = (res, hp')"
  then show ?thesis using rd_absent[OF None, of sat p r hp] by auto
next
  case (Some d)
  assume a: "resolve_dependency sat pl p (n, r) hp = (res, hp')"
  show ?thesis
  proof (cases "sat (version (metadata (hp d))) r")
    case True
    then show ?thesis using rd_ok[where sat = sat and hp = hp and p = p, OF Some True] a by auto
  next
    case False
    then show ?thesis using rd_mismatch[where sat = sat and hp = hp and p = p, OF Some False] a by simp
  qed
qed

lemma forEach_throw_append:
  "forEach_throw f (xs @ ys) hp =
     (case forEach_throw f xs hp of
        (Some e, hp') \<Rightarrow> (Some e, hp')
      | (None, hp') \<Rightarrow> forEach_throw f ys hp')"
proof (induction xs arbitrary: hp)
  case Nil
  then show ?case by simp
next
  case (Cons x xs)
  obtain r hp1 where fx: "f x hp = (r, hp1)" by (cases "f x hp")
  show ?case
  proof (cases r)
    case None
    then show ?thesis using fx Cons.IH[of hp1] by simp
  next
    case (Some e)
    then show ?thesis using fx by simp
  qed
qed

lemma forEach_throw_map:
  "forEach_throw f (map g xs) hp = forEach_throw (\<lambda>x. f (g x)) xs hp"
proof (induction xs arbitrary: hp)
  case Nil
  then show ?case by simp
next
  case (Cons x xs)
  obtain r hp1 where fx: "f (g x) hp = (r, hp1)" by (cases "f (g x) hp")
  then show ?case using Cons.IH[of hp1] by (cases r) simp_all
qed

lemma forEach_throw_invariant:
  "\<forall>x\<in>set xs. \<forall>h r h'. I h \<longrightarrow> f x h = (r, h') \<longrightarrow> I h' \<Longrightarrow>
   I hp \<Longrightarrow> forEach_throw f xs hp = (res, hp') \<Longrightarrow> I hp'"
proof (induction xs arbitrary: hp)
  case Nil
  then show ?case by simp
next
  case (Cons x xs)
  obtain r hp1 where fx: "f x hp = (r, hp1)" by (cases "f x hp")
  have I1: "I hp1" using Cons.prems(1,2) fx by simp
  have step: "\<forall>x\<in>set xs. \<forall>h r h'. I h \<longrightarrow> f x h = (r, h') \<longrightarrow> I h'"
    using Cons.prems(1) by (meson list.set_intros(2))
  show ?case
  proof (cases r)
    case None
    then have "forEach_throw f xs hp1 = (res, hp')" using Cons.prems(3) fx by simp
    then show ?thesis using Cons.IH[OF step I1] by simp
  next
    case (Some e)
    then have "hp' = hp1" using Cons.prems(3) fx by simp
    then show ?thesis using I1 by simp
  qed
qed

lemma forEach_throw_first_failure:
  assumes "forEach_throw f pre hp = (None, hp1)" and "f x hp1 = (Some e, hp2)"
  shows "forEach_throw f (pre @ x # post) hp = (Some e, hp2)"
  using assms by (simp add: forEach_throw_append)

lemma forEach_throw_fails:
  "\<forall>y\<in>set xs. \<forall>h r h'. I h \<longrightarrow> f y h = (r, h') \<longrightarrow> I h' \<Longrightarrow>
   \<forall>h. I h \<longrightarrow> fst (f x h) \<noteq> None \<Longrightarrow>
   x \<in> set xs \<Longrightarrow> I hp \<Longrightarrow> fst (forEach_throw f xs hp) \<noteq> None"
proof (induction xs arbitrary: hp)
  case Nil
  then show ?case by simp
next
  case (Cons y ys)
  obtain r hp1 where fy: "f y hp = (r, hp1)" by (cases "f y hp")
  have I1: "I hp1" using Cons.prems(1,4) fy by simp
  have step: "\<forall>y\<in>set ys. \<forall>h r h'. I h \<longrightarrow> f y h = (r, h') \<longrightarrow> I h'"
    using Cons.prems(1) by (meson list.set_intros(2))
  show ?case
  proof (cases r)
    case (Some e)
    then show ?thesis using fy by simp
  next
    case None
    have "fst (f x hp) \<noteq> None" using Cons.prems(2,4) by blast
    then have "x \<noteq> y" using fy None by auto
    then have "x \<in> set ys" using Cons.prems(3) by simp
    then have "fst (forEach_throw f ys hp1) \<noteq> None"
      using Cons.IH[OF step Cons.prems(2) _ I1] by simp
    then show ?thesis using fy None by simp
  qed
qed

lemma resolve_entry_same_metadata:
  "same_metadata hp0 hp \<Longrightarrow> resolve_entry sat pl pe hp = (res, hp') \<Longrightarrow> same_metadata hp0 hp'"
  using rd_cases[of sat pl "fst pe" "fst (snd pe)" "snd (snd pe)" hp res hp']
  by (simp add: resolve_entry_def same_metadata_def)

lemma resolve_entries_same_metadata:
  assumes "forEach_throw (resolve_entry sat pl) es hp = (res, hp')"
  shows "same_metadata hp hp'"
proof (rule forEach_throw_invariant[where I = "same_metadata hp", OF _ _ assms])
  show "\<forall>x\<in>set es. \<forall>h r h'. same_metadata hp h \<longrightarrow> resolve_entry sat pl x h = (r, h') \<longrightarrow> same_metadata hp h'"
    using resolve_entry_same_metadata by blast
  show "same_metadata hp hp" by (simp add: same_metadata_def)
qed

lemma dependency_entries_same:
  "same_metadata hp hp' \<Longrightarrow> dependency_entries hp' ps = dependency_entries hp ps"
  by (simp add: dependency_entries_def same_metadata_def)

lemma dependency_entries_Cons:
  "dependency_entries hp ((key, p) # ps) =
     map (Pair p) (or_empty (metadata.dependencies (metadata (hp p)))) @ dependency_entries hp ps"
  by (simp add: dependency_entries_def)

lemma resolve_entry_Pair: "resolve_entry sat pl (p, e) = resolve_dependency sat pl p e"
  by (rule ext) (simp add: resolve_entry_def)

lemma resolve_plugin_entries:
  "resolve_plugin sat pl (key, p) hp =
     forEach_throw (resolve_entry sat pl) (map (Pair p) (or_empty (metadata.dependencies (metadata (hp p))))) hp"
  by (simp add: resolve_plugin_def Let_def forEach_throw_map resolve_entry_Pair)

lemma resolve_plugins_flat:
  "forEach_throw (resolve_plugin sat pl) ps hp =
     forEach_throw (resolve_entry sat pl) (dependency_entries hp ps) hp"
proof (induction ps arbitrary: hp)
  case Nil
  then show ?case by (simp add: dependency_entries_def)
next
  case (Cons kp ps)
  obtain key p where kp: "kp = (key, p)" by (cases kp)
  let ?es = "map (Pair p) (or_empty (metadata.dependencies (metadata (hp p))))"
  obtain r hp1 where fx: "forEach_throw (resolve_entry sat pl) ?es hp = (r, hp1)"
    by (cases "forEach_throw (resolve_entry sat pl) ?es hp")
  have same: "dependency_entries hp1 ps = dependency_entries hp ps"
    using resolve_entries_same_metadata[OF fx] by (rule dependency_entries_same)
  show ?case
  proof (cases r)
    case None
    then show ?thesis
      using fx Cons.IH[of hp1] same
      by (simp add: kp resolve_plugin_entries dependency_entries_Cons forEach_throw_append)
  next
    case (Some e)
    then show ?thesis
      using fx by (simp add: kp resolve_plugin_entries dependency_entries_Cons forEach_throw_append)
  qed
qed

lemma resolve_flat:
  "resolve sat this hp =
     forEach_throw (resolve_entry sat (plugins this)) (dependency_entries hp (plugins this)) hp"
  by (simp add: resolve_def resolve_plugins_flat)

lemma declared_entry:
  "(key, a) \<in> set pl \<Longrightarrow> (n, r) \<in> set (or_empty (metadata.dependencies (metadata (hp a)))) \<Longrightarrow>
   (a, n, r) \<in> set (dependency_entries hp pl)"
  by (force simp: dependency_entries_def)

text \<open>
  An entry whose name is not registered ends \<open>resolve\<close> without writing anything. When
  the name is one that \<open>Object.prototype\<close> supplies, the exception is the runtime's
  \<open>TypeError\<close> and not the error \<open>resolve\<close> constructs for a missing dependency.
\<close>

lemma missing_inherited_name:
  assumes "map_of (plugins this) n = None" and "n \<in> set Object_prototype"
    and "dependency_entries hp (plugins this) = pre @ (a, n, r) # post"
    and "forEach_throw (resolve_entry sat (plugins this)) pre hp = (None, hp1)"
  shows "resolve sat this hp = (Some TypeError, hp1)"
  using assms(3,4)
  by (simp add: resolve_flat forEach_throw_append resolve_entry_def rd_inherited[OF assms(1,2)])

section \<open>The links resolve creates\<close>

lemma entry_registered:
  "(p, m, r) \<in> set (dependency_entries hp pl) \<Longrightarrow> \<exists>kp. (kp, p) \<in> set pl"
  by (auto simp: dependency_entries_def)

lemma registered_lookup:
  "registered_by_name hp pl \<Longrightarrow> (kp, p) \<in> set pl \<Longrightarrow> map_of pl kp = Some p \<and> plugin.name (hp p) = kp"
  unfolding registered_by_name_def by (auto simp: map_of_eq_Some_iff)

lemma link_created:
  assumes "map_of pl n = Some b" and "sat (version (metadata (h b))) r"
  shows "\<exists>h'. resolve_entry sat pl (a, n, r) h = (None, h') \<and> links h' a (plugin.name (h a)) b n"
proof -
  obtain h' where h': "resolve_dependency sat pl a (n, r) h = (None, h')"
    and dps: "plugin.dependencies (h' a) = Some (AList.update n b (or_empty (plugin.dependencies (h a))))"
    and dts: "dependents (h' b) = Some (AList.update (plugin.name (h a)) a (or_empty (dependents (h b))))"
    using rd_ok[where sat = sat and hp = h and p = a, OF assms] by auto
  have "links h' a (plugin.name (h a)) b n"
    by (simp add: links_def dps dts update_conv')
  then show ?thesis using h' by (simp add: resolve_entry_def)
qed

lemma link_kept:
  assumes wf: "registered_by_name hp0 pl" and same: "same_metadata hp0 h"
    and a: "map_of pl ka = Some a" and b: "map_of pl kb = Some b"
    and L: "links h a ka b kb"
    and e: "pe \<in> set (dependency_entries hp0 pl)"
    and step: "resolve_entry sat pl pe h = (res, h')"
  shows "links h' a ka b kb"
proof -
  obtain p m r where pe: "pe = (p, m, r)" by (cases pe)
  obtain kp where kp: "(kp, p) \<in> set pl" using e entry_registered unfolding pe by blast
  have p: "map_of pl kp = Some p" and np0: "plugin.name (hp0 p) = kp"
    using registered_lookup[OF wf kp] by simp_all
  have np: "plugin.name (h p) = kp" using np0 same by (simp add: same_metadata_def)
  have rd: "resolve_dependency sat pl p (m, r) h = (res, h')" using step by (simp add: pe resolve_entry_def)
  show ?thesis
  proof (cases "map_of pl m")
    case None
    then have "h' = h" using rd rd_absent[OF None, of sat p r h] by auto
    then show ?thesis using L by simp
  next
    case (Some d)
    show ?thesis
    proof (cases "sat (version (metadata (h d))) r")
      case False
      then have "h' = h" using rd rd_mismatch[where sat = sat and hp = h and p = p, OF Some False] by simp
      then show ?thesis using L by simp
    next
      case True
      have dps: "plugin.dependencies (h' a) =
            (if a = p then Some (AList.update m d (or_empty (plugin.dependencies (h p))))
             else plugin.dependencies (h a))"
        and dts: "dependents (h' b) =
            (if b = d then Some (AList.update (plugin.name (h p)) p (or_empty (dependents (h d))))
             else dependents (h b))"
        using rd_ok[where sat = sat and hp = h and p = p, OF Some True] rd by auto
      have 1: "map_of (or_empty (dependents (h' b))) ka = Some a"
      proof (cases "b = d")
        case False
        then show ?thesis using dts L by (simp add: links_def)
      next
        case bd: True
        show ?thesis
        proof (cases "kp = ka")
          case True
          then have "p = a" using p a by simp
          then show ?thesis using dts bd np True by (simp add: update_conv')
        next
          case False
          then show ?thesis using dts bd np L by (simp add: links_def update_conv')
        qed
      qed
      have 2: "map_of (or_empty (plugin.dependencies (h' a))) kb = Some b"
      proof (cases "a = p")
        case False
        then show ?thesis using dps L by (simp add: links_def)
      next
        case ap: True
        show ?thesis
        proof (cases "m = kb")
          case True
          then have "d = b" using Some b by simp
          then show ?thesis using dps ap True by (simp add: update_conv')
        next
          case False
          then show ?thesis using dps ap L by (simp add: links_def update_conv')
        qed
      qed
      show ?thesis using 1 2 by (simp add: links_def)
    qed
  qed
qed

lemma set_AList_update: "set (AList.update k v al) \<subseteq> insert (k, v) (set al)"
  by (induction al) auto

lemma resolve_entry_linked:
  assumes L: "linked h pl" and step: "resolve_entry sat pl pe h = (res, h')"
  shows "linked h' pl"
proof -
  obtain p m r where pe: "pe = (p, m, r)" by (cases pe)
  have rd: "resolve_dependency sat pl p (m, r) h = (res, h')" using step by (simp add: pe resolve_entry_def)
  show ?thesis
  proof (cases "map_of pl m")
    case None
    then have "h' = h" using rd rd_absent[OF None, of sat p r h] by auto
    then show ?thesis using L by simp
  next
    case (Some d)
    show ?thesis
    proof (cases "sat (version (metadata (h d))) r")
      case False
      then have "h' = h" using rd rd_mismatch[where sat = sat and hp = h and p = p, OF Some False] by simp
      then show ?thesis using L by simp
    next
      case True
      have dps: "\<And>x. plugin.dependencies (h' x) =
            (if x = p then Some (AList.update m d (or_empty (plugin.dependencies (h p))))
             else plugin.dependencies (h x))"
        using rd_ok[where sat = sat and hp = h and p = p, OF Some True] rd by auto
      show ?thesis
        unfolding linked_def
      proof (intro ballI, clarify)
        fix key x n' d'
        assume kx: "(key, x) \<in> set pl" and nd: "(n', d') \<in> set (or_empty (plugin.dependencies (h' x)))"
        show "map_of pl n' = Some d'"
        proof (cases "x = p")
          case False
          then have "(n', d') \<in> set (or_empty (plugin.dependencies (h x)))" using nd dps by simp
          then show ?thesis using L kx unfolding linked_def by blast
        next
          case True
          then have "(n', d') \<in> set (AList.update m d (or_empty (plugin.dependencies (h p))))"
            using nd dps by simp
          then have "(n', d') = (m, d) \<or> (n', d') \<in> set (or_empty (plugin.dependencies (h p)))"
            using set_AList_update[of m d "or_empty (plugin.dependencies (h p))"] by blast
          then show ?thesis
          proof
            assume "(n', d') = (m, d)"
            then show ?thesis using Some by simp
          next
            assume "(n', d') \<in> set (or_empty (plugin.dependencies (h p)))"
            then show ?thesis using L kx True unfolding linked_def by blast
          qed
        qed
      qed
    qed
  qed
qed

lemma resolve_linked:
  assumes "linked hp (plugins this)" and "resolve sat this hp = (res, hp')"
  shows "linked hp' (plugins this)"
proof (rule forEach_throw_invariant[where I = "\<lambda>h. linked h (plugins this)"
      and f = "resolve_entry sat (plugins this)" and xs = "dependency_entries hp (plugins this)"
      and hp = hp and res = res])
  show "\<forall>x\<in>set (dependency_entries hp (plugins this)). \<forall>h r h'.
          linked h (plugins this) \<longrightarrow> resolve_entry sat (plugins this) x h = (r, h') \<longrightarrow>
          linked h' (plugins this)"
    using resolve_entry_linked by blast
  show "linked hp (plugins this)" by (rule assms(1))
  show "forEach_throw (resolve_entry sat (plugins this)) (dependency_entries hp (plugins this)) hp = (res, hp')"
    using assms(2) by (simp add: resolve_flat)
qed

lemma unlinked_linked:
  "\<forall>(key, p)\<in>set pl. plugin.dependencies (hp p) = None \<Longrightarrow> linked hp pl"
  by (auto simp: linked_def)

section \<open>The calls values makes\<close>



section \<open>The examples\<close>

lemma chain_prioritize: "prioritize chain_linked abc_registry = Some (abc_registry\<lparr>prioritized := [0, 1, 2]\<rparr>)"
proof -
  have 1: "forEach_move (\<lambda>ordered. no_dependencies chain_linked) [] [0, 1, 2] = ([0], [1, 2])"
    by (simp add: forEach_move_scan no_dependencies_def chain_linked_def fresh_plugin_def)
  have 2: "forEach_move (isSatisfied chain_linked) [0] [1, 2] = ([0, 1], [2])"
    by (simp add: forEach_move_scan isSatisfied_def values_of_def chain_linked_def fresh_plugin_def)
  have 3: "forEach_move (isSatisfied chain_linked) [0, 1] [2] = ([0, 1, 2], [])"
    by (simp add: forEach_move_scan isSatisfied_def values_of_def chain_linked_def fresh_plugin_def)
  have "satisfy chain_linked [0, 1] [2] = Some [0, 1, 2]"
    using 3 by (subst satisfy.simps) simp
  then have "satisfy chain_linked [0] [1, 2] = Some [0, 1, 2]"
    using 2 by (subst satisfy.simps) simp
  then show ?thesis
    using 1 by (simp add: prioritize_def abc_registry_def values_of_def)
qed

lemma chain_resolve:
  "fst (resolve satisfies_ex abc_registry chain_heap) = None \<and>
   (\<forall>x\<in>{0, 1, 2}. snd (resolve satisfies_ex abc_registry chain_heap) x = chain_linked x)"
  by (simp add: resolve_def resolve_plugin_def resolve_dependency_def lookup_def abc_registry_def chain_heap_def
      chain_linked_def fresh_plugin_def satisfies_ex_def Let_def)

lemma chain_linked_linked: "linked chain_linked (plugins abc_registry)"
  by (simp add: linked_def abc_registry_def chain_linked_def fresh_plugin_def)

lemma acyclic_increasing:
  assumes "\<forall>(q, p)\<in>r. q < (p::nat)"
  shows "acyclic r"
proof -
  have "r \<subseteq> less_than" using assms by auto
  then show ?thesis using wf_less_than by (metis acyclic_subset wf_acyclic)
qed

lemma chain_acyclic: "acyclic (depends_on chain_linked (plugins abc_registry))"
  by (rule acyclic_increasing)
     (auto simp: depends_on_def deps_def values_of_def abc_registry_def chain_linked_def fresh_plugin_def)

section \<open>The claims\<close>

subsection \<open>C1: dependencies come first\<close>

text \<open>
  Claim C1. For every acyclic set of registered plugins whose dependency links were
  established by \<open>resolve()\<close>, \<open>prioritize()\<close> produces an order in which every plugin in
  the \<open>dependencies\<close> map of a plugin \<open>P\<close> stands at a smaller index than \<open>P\<close>.

  The links are in the state \<open>resolve\<close> leaves (\<open>linked\<close>) and the graph of the
  registered plugins is acyclic; then \<open>prioritize\<close> returns and leaves the registry map
  as it was, \<open>prioritized\<close> holds exactly the registered plugins, each as often as the
  map holds it, and every linked dependency precedes its dependent in \<open>prioritized\<close>.
\<close>

theorem prioritize_dependencies_first:
  assumes "linked hp (plugins this)" and "acyclic (depends_on hp (plugins this))"
  shows "\<exists>this'. prioritize hp this = Some this' \<and> plugins this' = plugins this \<and>
           mset (prioritized this') = mset (values_of (Some (plugins this))) \<and>
           set (prioritized this') = snd ` set (plugins this) \<and>
           deps_precede hp (prioritized this')"
proof -
  obtain ordered remaining
    where sc: "scan (\<lambda>ordered. no_dependencies hp) [] (map snd (plugins this)) = (ordered, remaining)"
    by (cases "scan (\<lambda>ordered. no_dependencies hp) [] (map snd (plugins this))")
  have ms: "mset ordered + mset remaining = mset [] + mset (map snd (plugins this))"
    using sc by (rule scan_mset)
  then have "set_mset (mset ordered + mset remaining) = set_mset (mset (map snd (plugins this)))"
    by simp
  then have all: "set ordered \<union> set remaining = snd ` set (plugins this)" by simp
  have dp: "deps_precede hp ordered"
    using scan_deps_precede[OF _ deps_precede_Nil sc] by (simp add: no_dependencies_iff)
  have closed: "\<forall>p\<in>snd ` set (plugins this). set (deps hp p) \<subseteq> snd ` set (plugins this)"
    using linked_closed[OF assms(1)] by blast
  obtain xs where xs: "satisfy hp ordered remaining = Some xs" "deps_precede hp xs"
    "mset xs = mset ordered + mset remaining"
    using satisfy_returns[OF assms(2) closed all dp] by blast
  have perm: "mset xs = mset (values_of (Some (plugins this)))"
    using xs(3) ms by (simp add: values_of_Some)
  then have "set_mset (mset xs) = set_mset (mset (map snd (plugins this)))"
    by (simp add: values_of_Some)
  then have mem: "set xs = snd ` set (plugins this)" by simp
  show ?thesis using prioritize_unfold[OF sc] xs(1,2) perm mem by simp
qed

theorem prioritize_dependencies_first_witness:
  "linked chain_linked (plugins abc_registry) \<and>
   acyclic (depends_on chain_linked (plugins abc_registry)) \<and>
   (\<exists>this'. prioritize chain_linked abc_registry = Some this' \<and>
      plugins this' = plugins abc_registry \<and>
      mset (prioritized this') = mset (values_of (Some (plugins abc_registry))) \<and>
      set (prioritized this') = snd ` set (plugins abc_registry) \<and>
      deps_precede chain_linked (prioritized this')) \<and>
   prioritize chain_linked abc_registry = Some (abc_registry\<lparr>prioritized := [0, 1, 2]\<rparr>)"
  using prioritize_dependencies_first[OF chain_linked_linked chain_acyclic]
    chain_linked_linked chain_acyclic chain_prioritize
  by blast

subsection \<open>C2: a cycle\<close>

text \<open>
  Claim C2. For every set of registered plugins whose dependency graph contains a
  cycle, \<open>prioritize()\<close> terminates and fails with CyclicDependencyError; it never
  recurses unboundedly.

  The code does not: with \<open>a\<close> and \<open>b\<close> requiring each other neither is ever moved, so
  every call of \<open>satisfy\<close> ends in another call with the same arguments, and
  \<open>prioritize\<close> never returns. (\<open>cyclic_registry_diverges\<close> above shows the same for
  every registry whose graph has a cycle.)
\<close>

theorem prioritize_cycle_never_returns:
  "prioritize cycle_heap ab_registry = None"
proof (rule cyclic_registry_diverges)
  let ?r = "depends_on cycle_heap (plugins ab_registry)"
  have "(0, 1) \<in> ?r" "(1, 0) \<in> ?r"
    by (simp_all add: depends_on_def deps_def values_of_def ab_registry_def cycle_heap_def fresh_plugin_def)
  then have "(0, 0) \<in> ?r\<^sup>+" by (meson trancl.intros)
  then show "\<not> acyclic ?r" by (auto simp: acyclic_def)
qed

subsection \<open>C3: the order among independent plugins\<close>

text \<open>
  Claim C3. Plugins that are eligible in the same pass of \<open>prioritize()\<close> appear in the
  result in their registration order.

  The code does not keep that order: of three plugins without dependencies, registered
  as \<open>a\<close>, \<open>b\<close>, \<open>c\<close>, the first loop moves \<open>a\<close>, passes over \<open>b\<close>, which has slid into the
  index just visited, and moves \<open>c\<close>; \<open>b\<close> follows in the next pass.
\<close>

theorem prioritize_skips_eligible_plugin:
  "prioritize independent_heap abc_registry = Some (abc_registry\<lparr>prioritized := [0, 2, 1]\<rparr>)"
proof -
  have 1: "forEach_move (\<lambda>ordered. no_dependencies independent_heap) [] [0, 1, 2] = ([0, 2], [1])"
    by (simp add: forEach_move_scan no_dependencies_def independent_heap_def fresh_plugin_def)
  have 2: "forEach_move (isSatisfied independent_heap) [0, 2] [1] = ([0, 2, 1], [])"
    by (simp add: forEach_move_scan isSatisfied_def values_of_def independent_heap_def fresh_plugin_def)
  have "satisfy independent_heap [0, 2] [1] = Some [0, 2, 1]"
    using 2 by (subst satisfy.simps) simp
  then show ?thesis
    using 1 by (simp add: prioritize_def abc_registry_def values_of_def)
qed

subsection \<open>C4: del of an absent name\<close>

text \<open>
  Claim C4, as stated: for a name that is not in the plugin map, \<open>registry.del(name)\<close>
  returns false and leaves the map unchanged. On the empty registry \<open>del\<close> returns true.
\<close>

theorem del_absent_not_false:
  "map_of (plugins Registry) ''ghost'' = None \<and> fst (del ''ghost'' Registry) \<noteq> False"
  by (simp add: del_def Registry_def)

text \<open>
  Claim C4, amended: for a name that is not in the plugin map, \<open>registry.del(name)\<close>
  returns true and leaves the registry unchanged.
\<close>

theorem del_absent_returns_true:
  "map_of (plugins this) name' = None \<Longrightarrow> del name' this = (True, this)"
  by (simp add: del_def map_of_eq_None_iff)

theorem del_absent_returns_true_witness:
  "map_of (plugins abc_registry) ''ghost'' = None \<and> del ''ghost'' abc_registry = (True, abc_registry)"
proof -
  have h: "map_of (plugins abc_registry) ''ghost'' = None" by (simp add: abc_registry_def)
  show ?thesis using h del_absent_returns_true[OF h] by simp
qed

subsection \<open>C5: a missing dependency\<close>




subsection \<open>C6: a version outside the range\<close>

text \<open>
  Claim C6, as stated: when a registered plugin \<open>A\<close> declares a dependency on a
  registered plugin \<open>B\<close> under a range that the version of \<open>B\<close> does not satisfy,
  \<open>resolve()\<close> fails with the error that identifies \<open>B\<close>, its version and the range.
  When an entry visited earlier fails, \<open>resolve\<close> fails with that entry's error
  instead: here \<open>a\<close> requires the unregistered \<open>ghost\<close> before it requires \<open>b\<close> in a
  range that \<open>b\<close> is not in.
\<close>

theorem resolve_mismatch_masked_by_earlier_failure:
  "map_of (plugins ab_registry) ''b'' = Some 1 \<and>
   (''b'', ''^2.0.0'') \<in> set (or_empty (metadata.dependencies (metadata (ghost_first_heap 0)))) \<and>
   \<not> satisfies_ex (version (metadata (ghost_first_heap 1))) ''^2.0.0'' \<and>
   fst (resolve satisfies_ex ab_registry ghost_first_heap) = Some (Error ''Dependency ghost missing.'') \<and>
   fst (resolve satisfies_ex ab_registry ghost_first_heap) \<noteq>
     Some (Error ''b 1.0.0 does not satisfy ^2.0.0.'')"
  by (simp add: resolve_def resolve_plugin_def resolve_dependency_def lookup_def Object_prototype_def
      ab_registry_def ghost_first_heap_def fresh_plugin_def satisfies_ex_def)

text \<open>
  Claim C6, amended: when a registered plugin \<open>A\<close> declares a dependency on a
  registered plugin \<open>B\<close> under a range that the version of \<open>B\<close> does not satisfy,
  \<open>resolve()\<close> fails. The error is the one of the first failing entry in the order of
  the visits; when the visits before this entry succeed, it is
  \<open>Error('<name> <version> does not satisfy <range>.')\<close> with the dependency's name,
  the version of \<open>B\<close> and the requested range, and the heap is the one those earlier
  visits left.
\<close>

theorem resolve_version_mismatch:
  assumes reg: "(key, a) \<in> set (plugins this)"
    and decl: "(n, r) \<in> set (or_empty (metadata.dependencies (metadata (hp a))))"
    and dep: "map_of (plugins this) n = Some b"
    and mismatch: "\<not> sat (version (metadata (hp b))) r"
  shows "fst (resolve sat this hp) \<noteq> None \<and>
    (\<forall>pre post hp1.
       dependency_entries hp (plugins this) = pre @ (a, n, r) # post \<and>
       forEach_throw (resolve_entry sat (plugins this)) pre hp = (None, hp1) \<longrightarrow>
       resolve sat this hp =
         (Some (Error (n @ '' '' @ version (metadata (hp b)) @ '' does not satisfy '' @ r @ ''.'')), hp1))"
proof (intro conjI allI impI)
  have "fst (forEach_throw (resolve_entry sat (plugins this)) (dependency_entries hp (plugins this)) hp) \<noteq> None"
  proof (rule forEach_throw_fails[where I = "same_metadata hp" and x = "(a, n, r)"])
    show "(a, n, r) \<in> set (dependency_entries hp (plugins this))"
      using reg decl by (rule declared_entry)
    show "\<forall>h. same_metadata hp h \<longrightarrow> fst (resolve_entry sat (plugins this) (a, n, r) h) \<noteq> None"
    proof (intro allI impI)
      fix h assume "same_metadata hp h"
      then have "\<not> sat (version (metadata (h b))) r" using mismatch by (simp add: same_metadata_def)
      then show "fst (resolve_entry sat (plugins this) (a, n, r) h) \<noteq> None"
        using rd_mismatch[where sat = sat and hp = h and p = a, OF dep] by (simp add: resolve_entry_def)
    qed
    show "same_metadata hp hp" by (simp add: same_metadata_def)
    show "\<forall>y\<in>set (dependency_entries hp (plugins this)). \<forall>h r h'.
            same_metadata hp h \<longrightarrow> resolve_entry sat (plugins this) y h = (r, h') \<longrightarrow> same_metadata hp h'"
      using resolve_entry_same_metadata by blast
  qed
  then show "fst (resolve sat this hp) \<noteq> None" by (simp add: resolve_flat)
next
  fix pre post hp1
  assume a: "dependency_entries hp (plugins this) = pre @ (a, n, r) # post \<and>
       forEach_throw (resolve_entry sat (plugins this)) pre hp = (None, hp1)"
  then have "same_metadata hp hp1" using resolve_entries_same_metadata by blast
  then have v: "version (metadata (hp1 b)) = version (metadata (hp b))" by (simp add: same_metadata_def)
  then have "\<not> sat (version (metadata (hp1 b))) r" using mismatch by simp
  then have "resolve_entry sat (plugins this) (a, n, r) hp1 =
     (Some (Error (n @ '' '' @ version (metadata (hp b)) @ '' does not satisfy '' @ r @ ''.'')), hp1)"
    using rd_mismatch[where sat = sat and hp = hp1 and p = a, OF dep] v by (simp add: resolve_entry_def)
  then show "resolve sat this hp =
         (Some (Error (n @ '' '' @ version (metadata (hp b)) @ '' does not satisfy '' @ r @ ''.'')), hp1)"
    using a by (simp add: resolve_flat forEach_throw_append)
qed

theorem resolve_version_mismatch_witness:
  "(''a'', 0) \<in> set (plugins ab_registry) \<and>
   (''b'', ''^2.0.0'') \<in> set (or_empty (metadata.dependencies (metadata (mismatch_heap 0)))) \<and>
   map_of (plugins ab_registry) ''b'' = Some 1 \<and>
   \<not> satisfies_ex (version (metadata (mismatch_heap 1))) ''^2.0.0'' \<and>
   dependency_entries mismatch_heap (plugins ab_registry) = [] @ (0, ''b'', ''^2.0.0'') # [] \<and>
   forEach_throw (resolve_entry satisfies_ex (plugins ab_registry)) [] mismatch_heap = (None, mismatch_heap) \<and>
   fst (resolve satisfies_ex ab_registry mismatch_heap) \<noteq> None \<and>
   resolve satisfies_ex ab_registry mismatch_heap =
     (Some (Error ''b 1.0.0 does not satisfy ^2.0.0.''), mismatch_heap)"
proof -
  have reg: "(''a'', 0) \<in> set (plugins ab_registry)" by (simp add: ab_registry_def)
  have decl: "(''b'', ''^2.0.0'') \<in> set (or_empty (metadata.dependencies (metadata (mismatch_heap 0))))"
    by (simp add: mismatch_heap_def fresh_plugin_def)
  have dep: "map_of (plugins ab_registry) ''b'' = Some 1" by (simp add: ab_registry_def)
  have mismatch: "\<not> satisfies_ex (version (metadata (mismatch_heap 1))) ''^2.0.0''"
    by (simp add: satisfies_ex_def)
  have entries: "dependency_entries mismatch_heap (plugins ab_registry) = [] @ (0, ''b'', ''^2.0.0'') # []"
    by (simp add: dependency_entries_def ab_registry_def mismatch_heap_def fresh_plugin_def)
  have pre: "forEach_throw (resolve_entry satisfies_ex (plugins ab_registry)) [] mismatch_heap = (None, mismatch_heap)"
    by simp
  have v: "version (metadata (mismatch_heap 1)) = ''1.0.0''"
    by (simp add: mismatch_heap_def fresh_plugin_def)
  have "fst (resolve satisfies_ex ab_registry mismatch_heap) \<noteq> None \<and>
        resolve satisfies_ex ab_registry mismatch_heap =
          (Some (Error (''b'' @ '' '' @ version (metadata (mismatch_heap 1)) @ '' does not satisfy '' @ ''^2.0.0'' @ ''.'')),
           mismatch_heap)"
    using resolve_version_mismatch[where this = ab_registry and hp = mismatch_heap and a = 0 and b = 1
        and sat = satisfies_ex, OF reg decl dep mismatch]
      entries pre
    by blast
  then show ?thesis using reg decl dep mismatch entries pre v by simp
qed

subsection \<open>C7: the links\<close>

text \<open>
  Claim C7, as stated: when a registered plugin \<open>A\<close> declares a dependency on a
  registered plugin \<open>B\<close> under a range that the version of \<open>B\<close> satisfies, then after
  \<open>resolve()\<close> \<open>B.dependents[A.name]\<close> is \<open>A\<close> and \<open>A.dependencies[B.name]\<close> is \<open>B\<close>.
  \<open>resolve\<close> stores \<open>B\<close> under the name \<open>A\<close> declared, which is the key of \<open>B\<close> in the
  registry map: when \<open>registry.set\<close> stored \<open>B\<close> under a key other than its own name,
  \<open>A.dependencies[B.name]\<close> is \<open>undefined\<close> after a \<open>resolve\<close> that succeeded.
\<close>

theorem resolve_link_keyed_by_registry_name:
  "map_of (plugins ab_registry) ''b'' = Some 1 \<and>
   (''b'', ''^1.0.0'') \<in> set (or_empty (metadata.dependencies (metadata (bee_heap 0)))) \<and>
   satisfies_ex (version (metadata (bee_heap 1))) ''^1.0.0'' \<and>
   fst (resolve satisfies_ex ab_registry bee_heap) = None \<and>
   map_of (or_empty (plugin.dependencies (snd (resolve satisfies_ex ab_registry bee_heap) 0)))
     (plugin.name (snd (resolve satisfies_ex ab_registry bee_heap) 1)) = None \<and>
   map_of (or_empty (plugin.dependencies (snd (resolve satisfies_ex ab_registry bee_heap) 0))) ''b'' = Some 1"
  by (simp add: resolve_def resolve_plugin_def resolve_dependency_def lookup_def ab_registry_def
      bee_heap_def fresh_plugin_def satisfies_ex_def Let_def)

text \<open>
  Claim C7, amended: let every plugin be stored in the registry under its own name, and
  let \<open>A\<close> declare a dependency on the registered plugin \<open>B\<close> under a range that the
  version of \<open>B\<close> satisfies. When the visits before this entry succeed, the visit of
  the entry succeeds, and when \<open>resolve()\<close> ends, normally or with the error of a later
  entry, \<open>B.dependents[A.name]\<close> is \<open>A\<close> and \<open>A.dependencies[B.name]\<close> is \<open>B\<close>.
\<close>

theorem resolve_links_bidirectional:
  assumes wf: "registered_by_name hp (plugins this)"
    and entries: "dependency_entries hp (plugins this) = pre @ (a, n, r) # post"
    and pre: "forEach_throw (resolve_entry sat (plugins this)) pre hp = (None, hp1)"
    and dep: "map_of (plugins this) n = Some b"
    and ok: "sat (version (metadata (hp b))) r"
  shows "(\<exists>hp2. resolve_entry sat (plugins this) (a, n, r) hp1 = (None, hp2)) \<and>
         (\<forall>res hp'. resolve sat this hp = (res, hp') \<longrightarrow>
            map_of (or_empty (dependents (hp' b))) (plugin.name (hp' a)) = Some a \<and>
            map_of (or_empty (plugin.dependencies (hp' a))) (plugin.name (hp' b)) = Some b)"
proof -
  let ?pl = "plugins this"
  have same1: "same_metadata hp hp1" using pre by (rule resolve_entries_same_metadata)
  then have "sat (version (metadata (hp1 b))) r" using ok by (simp add: same_metadata_def)
  then obtain hp2 where e: "resolve_entry sat ?pl (a, n, r) hp1 = (None, hp2)"
    and L2: "links hp2 a (plugin.name (hp1 a)) b n"
    using link_created[OF dep] by blast
  have same2: "same_metadata hp hp2" using same1 e by (rule resolve_entry_same_metadata)
  have "(a, n, r) \<in> set (dependency_entries hp ?pl)" using entries by simp
  then obtain ka where "(ka, a) \<in> set ?pl" using entry_registered by blast
  then have a: "map_of ?pl ka = Some a" and na: "plugin.name (hp a) = ka"
    using registered_lookup[OF wf] by simp_all
  have "(n, b) \<in> set ?pl" using dep by (rule map_of_SomeD)
  then have nb: "plugin.name (hp b) = n" using registered_lookup[OF wf] by simp
  have L2': "links hp2 a ka b n" using L2 na same1 by (simp add: same_metadata_def)
  have rest: "resolve sat this hp = forEach_throw (resolve_entry sat ?pl) post hp2"
    using pre e by (simp add: resolve_flat entries forEach_throw_append)
  have final: "map_of (or_empty (dependents (hp' b))) (plugin.name (hp' a)) = Some a \<and>
      map_of (or_empty (plugin.dependencies (hp' a))) (plugin.name (hp' b)) = Some b"
    if run: "resolve sat this hp = (res, hp')" for res hp'
  proof -
    have fin: "forEach_throw (resolve_entry sat ?pl) post hp2 = (res, hp')" using run rest by simp
    have "same_metadata hp hp' \<and> links hp' a ka b n"
    proof (rule forEach_throw_invariant[where I = "\<lambda>h. same_metadata hp h \<and> links h a ka b n", OF _ _ fin])
      show "same_metadata hp hp2 \<and> links hp2 a ka b n" using same2 L2' by simp
      show "\<forall>x\<in>set post. \<forall>h r h'. same_metadata hp h \<and> links h a ka b n \<longrightarrow>
              resolve_entry sat ?pl x h = (r, h') \<longrightarrow> same_metadata hp h' \<and> links h' a ka b n"
      proof (intro ballI allI impI)
        fix x h r' h'
        assume x: "x \<in> set post" and I: "same_metadata hp h \<and> links h a ka b n"
          and st: "resolve_entry sat ?pl x h = (r', h')"
        have xe: "x \<in> set (dependency_entries hp ?pl)" using x entries by simp
        have "same_metadata hp h'" using I st resolve_entry_same_metadata by blast
        moreover have "links h' a ka b n"
          using link_kept[OF wf _ a dep _ xe st] I by blast
        ultimately show "same_metadata hp h' \<and> links h' a ka b n" by simp
      qed
    qed
    then show ?thesis using na nb by (simp add: links_def same_metadata_def)
  qed
  show ?thesis using e final by blast
qed

theorem resolve_links_bidirectional_witness:
  "registered_by_name chain_heap (plugins abc_registry) \<and>
   dependency_entries chain_heap (plugins abc_registry) =
     [] @ (1, ''a'', ''^1.0.0'') # [(2, ''b'', ''^1.0.0'')] \<and>
   forEach_throw (resolve_entry satisfies_ex (plugins abc_registry)) [] chain_heap = (None, chain_heap) \<and>
   map_of (plugins abc_registry) ''a'' = Some 0 \<and>
   satisfies_ex (version (metadata (chain_heap 0))) ''^1.0.0'' \<and>
   (\<exists>hp2. resolve_entry satisfies_ex (plugins abc_registry) (1, ''a'', ''^1.0.0'') chain_heap = (None, hp2)) \<and>
   map_of (or_empty (dependents (snd (resolve satisfies_ex abc_registry chain_heap) 0)))
     (plugin.name (snd (resolve satisfies_ex abc_registry chain_heap) 1)) = Some 1 \<and>
   map_of (or_empty (plugin.dependencies (snd (resolve satisfies_ex abc_registry chain_heap) 1)))
     (plugin.name (snd (resolve satisfies_ex abc_registry chain_heap) 0)) = Some 0"
proof -
  have wf: "registered_by_name chain_heap (plugins abc_registry)"
    by (simp add: registered_by_name_def abc_registry_def chain_heap_def fresh_plugin_def)
  have entries: "dependency_entries chain_heap (plugins abc_registry) =
     [] @ (1, ''a'', ''^1.0.0'') # [(2, ''b'', ''^1.0.0'')]"
    by (simp add: dependency_entries_def abc_registry_def chain_heap_def fresh_plugin_def)
  have pre: "forEach_throw (resolve_entry satisfies_ex (plugins abc_registry)) [] chain_heap = (None, chain_heap)"
    by simp
  have dep: "map_of (plugins abc_registry) ''a'' = Some 0" by (simp add: abc_registry_def)
  have ok: "satisfies_ex (version (metadata (chain_heap 0))) ''^1.0.0''"
    by (simp add: satisfies_ex_def chain_heap_def fresh_plugin_def)
  have run: "resolve satisfies_ex abc_registry chain_heap =
      (fst (resolve satisfies_ex abc_registry chain_heap), snd (resolve satisfies_ex abc_registry chain_heap))"
    by simp
  show ?thesis
    using resolve_links_bidirectional[where this = abc_registry and hp = chain_heap and a = 1 and b = 0
        and sat = satisfies_ex, OF wf entries pre dep ok]
      wf entries pre dep ok run
    by blast
qed

subsection \<open>C8: the result is a permutation\<close>

text \<open>
  Claim C8, as stated: whenever \<open>prioritize()\<close> returns normally, \<open>prioritized\<close> is a
  permutation of the plugins in the registry map, every registered plugin appearing
  exactly once. \<open>registry.set\<close> takes the name and the plugin separately, so one
  plugin can be stored under two names; it is then twice among the values of the map
  and twice in \<open>prioritized\<close>.
\<close>

theorem prioritize_repeats_aliased_plugin:
  "get ''x'' alias_registry = Some 0 \<and> get ''y'' alias_registry = Some 0 \<and>
   prioritize alias_heap alias_registry = Some (alias_registry\<lparr>prioritized := [0, 0]\<rparr>) \<and>
   count_list (prioritized (alias_registry\<lparr>prioritized := [0, 0]\<rparr>)) 0 = 2"
proof -
  have 1: "forEach_move (\<lambda>ordered. no_dependencies alias_heap) [] [0, 0] = ([0], [0])"
    by (simp add: forEach_move_scan no_dependencies_def alias_heap_def fresh_plugin_def)
  have 2: "forEach_move (isSatisfied alias_heap) [0] [0] = ([0, 0], [])"
    by (simp add: forEach_move_scan isSatisfied_def values_of_def alias_heap_def fresh_plugin_def)
  have "satisfy alias_heap [0] [0] = Some [0, 0]"
    using 2 by (subst satisfy.simps) simp
  then have "prioritize alias_heap alias_registry = Some (alias_registry\<lparr>prioritized := [0, 0]\<rparr>)"
    using 1 by (simp add: prioritize_def alias_registry_def values_of_def)
  then show ?thesis by (simp add: get_def alias_registry_def)
qed

text \<open>
  Claim C8, amended: whenever \<open>prioritize()\<close> returns normally, the registry map is as it
  was and \<open>prioritized\<close> is a permutation of the values of the map: every plugin appears
  in it as often as it is stored in the map, and nothing else appears. When no plugin is
  stored under two names, every registered plugin appears exactly once. Before the
  pipeline has run, \<open>prioritized\<close> is empty.
\<close>

theorem prioritized_permutation:
  "prioritized Registry = [] \<and>
   (prioritize hp this = Some this' \<longrightarrow>
      plugins this' = plugins this \<and>
      mset (prioritized this') = mset (values_of (Some (plugins this'))) \<and>
      (distinct (values_of (Some (plugins this))) \<longrightarrow>
         distinct (prioritized this') \<and>
         set (prioritized this') = set (values_of (Some (plugins this)))))"
proof -
  have init: "prioritized Registry = []" by (simp add: Registry_def)
  have "plugins this' = plugins this \<and>
      mset (prioritized this') = mset (values_of (Some (plugins this'))) \<and>
      (distinct (values_of (Some (plugins this))) \<longrightarrow>
         distinct (prioritized this') \<and>
         set (prioritized this') = set (values_of (Some (plugins this))))"
    if pr: "prioritize hp this = Some this'"
  proof -
    obtain ordered remaining
      where sc: "scan (\<lambda>ordered. no_dependencies hp) [] (map snd (plugins this)) = (ordered, remaining)"
      by (cases "scan (\<lambda>ordered. no_dependencies hp) [] (map snd (plugins this))")
    have ms: "mset ordered + mset remaining = mset [] + mset (map snd (plugins this))"
      using sc by (rule scan_mset)
    obtain xs where xs: "satisfy hp ordered remaining = Some xs" "this' = this\<lparr>prioritized := xs\<rparr>"
      using pr prioritize_unfold[OF sc] by auto
    have "mset xs = mset ordered + mset remaining" using xs(1) by (rule satisfy_mset)
    then have perm: "mset xs = mset (values_of (Some (plugins this)))"
      using ms by (simp add: values_of_Some)
    have once: "distinct xs \<and> set xs = set (values_of (Some (plugins this)))"
      if "distinct (values_of (Some (plugins this)))"
      using that mset_eq_imp_distinct_iff[OF perm] mset_eq_setD[OF perm] by simp
    show ?thesis
      using perm once xs(2) by simp
  qed
  then show ?thesis using init by blast
qed

theorem prioritized_permutation_witness:
  "prioritize chain_linked abc_registry = Some (abc_registry\<lparr>prioritized := [0, 1, 2]\<rparr>) \<and>
   distinct (values_of (Some (plugins abc_registry))) \<and>
   prioritized Registry = [] \<and>
   plugins (abc_registry\<lparr>prioritized := [0, 1, 2]\<rparr>) = plugins abc_registry \<and>
   mset (prioritized (abc_registry\<lparr>prioritized := [0, 1, 2]\<rparr>)) =
     mset (values_of (Some (plugins (abc_registry\<lparr>prioritized := [0, 1, 2]\<rparr>)))) \<and>
   distinct (prioritized (abc_registry\<lparr>prioritized := [0, 1, 2]\<rparr>)) \<and>
   set (prioritized (abc_registry\<lparr>prioritized := [0, 1, 2]\<rparr>)) =
     set (values_of (Some (plugins abc_registry)))"
proof -
  have d: "distinct (values_of (Some (plugins abc_registry)))"
    by (simp add: values_of_Some abc_registry_def)
  show ?thesis
    using prioritized_permutation[of chain_linked abc_registry "abc_registry\<lparr>prioritized := [0, 1, 2]\<rparr>"]
      chain_prioritize d
    by blast
qed

subsection \<open>C9: values\<close>



subsection \<open>C10: set and plugin replace\<close>

text \<open>
  Claim C10. When a plugin is already stored under a name, \<open>registry.set\<close> with that
  name and a \<open>Plugin\<close> instance does not fail: it replaces the stored plugin and
  returns the new one; \<open>registry.plugin(name, metadata)\<close> with metadata present
  likewise replaces the registration under that name, with the plugin it constructs.

  In both cases the name then leads to the new plugin, every other name leads where
  it did, and the keys of the map and their order are as before. The constructor of
  \<open>Plugin\<close> is a parameter; the second part is about a call in which it returns.
\<close>

theorem set_replaces_existing:
  assumes "get name' this = Some old"
  shows "(\<exists>this'. set_plugin name' (PluginInstance p) this = Inr (p, this') \<and>
            get name' this' = Some p \<and>
            (\<forall>k. k \<noteq> name' \<longrightarrow> get k this' = get k this) \<and>
            map fst (plugins this') = map fst (plugins this)) \<and>
         (\<forall>new. construct name' md = Inr new \<longrightarrow>
            (\<exists>s' this'. registry_plugin construct name' (Some md) (s, this) = (Inr (Some (next_ref s)), s', this') \<and>
               get name' this' = Some (next_ref s) \<and> heap s' (next_ref s) = new \<and>
               (\<forall>r. r \<noteq> next_ref s \<longrightarrow> heap s' r = heap s r) \<and>
               (\<forall>k. k \<noteq> name' \<longrightarrow> get k this' = get k this) \<and>
               map fst (plugins this') = map fst (plugins this)))"
proof -
  have key: "name' \<in> set (map fst (plugins this))"
    using assms by (auto simp: get_def dest: map_of_SomeD intro: rev_image_eqI)
  have upd: "\<And>q. map fst (AList.update name' q (plugins this)) = map fst (plugins this)"
    using key by (simp add: update_keys)
  show ?thesis
    by (simp add: set_plugin_def registry_plugin_def get_def update_conv' upd Let_def)
qed

theorem set_replaces_existing_witness:
  "get ''b'' abc_registry = Some 1 \<and>
   (\<exists>this'. set_plugin ''b'' (PluginInstance 7) abc_registry = Inr (7, this') \<and>
      get ''b'' this' = Some 7 \<and> map fst (plugins this') = map fst (plugins abc_registry)) \<and>
   construct_ex ''b'' \<lparr>version = ''2.0.0'', metadata.dependencies = None\<rparr> =
     Inr (fresh_plugin ''b'' ''2.0.0'' None) \<and>
   (\<exists>s' this'. registry_plugin construct_ex ''b'' (Some \<lparr>version = ''2.0.0'', metadata.dependencies = None\<rparr>)
        (\<lparr>heap = chain_heap, next_ref = 3\<rparr>, abc_registry) = (Inr (Some 3), s', this') \<and>
      get ''b'' this' = Some 3 \<and> heap s' 3 = fresh_plugin ''b'' ''2.0.0'' None \<and>
      map fst (plugins this') = map fst (plugins abc_registry))"
proof -
  have old: "get ''b'' abc_registry = Some 1" by (simp add: get_def abc_registry_def)
  have new: "construct_ex ''b'' \<lparr>version = ''2.0.0'', metadata.dependencies = None\<rparr> =
     Inr (fresh_plugin ''b'' ''2.0.0'' None)"
    by (simp add: construct_ex_def fresh_plugin_def)
  have "next_ref \<lparr>heap = chain_heap, next_ref = 3\<rparr> = 3" by simp
  then show ?thesis
    using set_replaces_existing[OF old, of 7 construct_ex
        "\<lparr>version = ''2.0.0'', metadata.dependencies = None\<rparr>" "\<lparr>heap = chain_heap, next_ref = 3\<rparr>"]
      old new
    by force
qed

end
